theory Spec2Isabelle
  imports Main "HOL-Library.AList"
begin

section \<open>Shared vocabulary\<close>

text \<open>
  Provider hooks, lifecycle callbacks, event listeners and container factories are
  functions supplied by the caller. The kernel only observes how a call ends, so a
  supplied function is modelled by that: it returns, it throws synchronously, or it
  returns a promise that rejects. Hooks, callbacks and listeners are assumed not to call
  back into the application or the bus while they run. Container factories do call back
  into the container; they are modelled with the container.
\<close>

datatype outcome = Returns | Throws string | Rejects string

text \<open>What \<^verbatim>\<open>await f()\<close> raises: a synchronous throw and a rejection alike.\<close>

fun awaited :: "outcome \<Rightarrow> string option" where
  "awaited Returns = None"
| "awaited (Throws e) = Some e"
| "awaited (Rejects e) = Some e"

text \<open>What a plain call \<^verbatim>\<open>f()\<close> raises: a rejected promise that nobody awaits is not an
  exception at the call site.\<close>

fun called :: "outcome \<Rightarrow> string option" where
  "called Returns = None"
| "called (Throws e) = Some e"
| "called (Rejects e) = None"

text \<open>A container key is a string name or a class constructor (by identity).\<close>

datatype key = Name string | Ctor nat

text \<open>
  Every error of the kernel is a JavaScript \<^verbatim>\<open>Error\<close>; the constructors keep the
  conditions apart. \<open>Thrown\<close> carries a value thrown by a supplied function.
  \<open>Undefined\<close> stands for a lookup that the source marks with the non-null assertion
  \<^verbatim>\<open>!\<close> and that finds nothing. \<open>RangeError\<close> is what the engine throws when the call
  stack is exhausted.
\<close>

datatype error =
    AlreadyStarted string
  | DuplicateProviderName string
  | UnknownDependency string string
  | CircularDependency "string list"
  | NotRegistered key
  | Thrown string
  | Undefined
  | RangeError

section \<open>Event bus (events/emitter.ts)\<close>

text \<open>A listener is a function object: its identity and how a call to it ends.\<close>

datatype listener = Listener (ident: nat) (ending: outcome)

text \<open>
  \<^verbatim>\<open>_listeners\<close> is a \<^verbatim>\<open>Map<string, Set<Listener>>\<close>. A JavaScript \<^verbatim>\<open>Set\<close> iterates in
  insertion order and holds no duplicates, so a subscriber set is a list kept
  duplicate-free by \<open>set_add\<close>. \<^verbatim>\<open>_once\<close> is a \<^verbatim>\<open>WeakSet<Listener>\<close>, only ever tested for
  membership. \<open>calls\<close> records every listener invocation, oldest first.
\<close>

record emitter =
  listeners :: "string \<rightharpoonup> listener list"
  once_marks :: "listener set"
  calls :: "(string \<times> listener) list"

definition new_emitter :: emitter where
  "new_emitter = \<lparr>listeners = Map.empty, once_marks = {}, calls = []\<rparr>"

definition set_add :: "'a \<Rightarrow> 'a list \<Rightarrow> 'a list" where
  "set_add x xs = (if x \<in> set xs then xs else xs @ [x])"

definition set_delete :: "'a \<Rightarrow> 'a list \<Rightarrow> 'a list" where
  "set_delete x xs = removeAll x xs"

definition on :: "string \<Rightarrow> listener \<Rightarrow> emitter \<Rightarrow> emitter" where
  "on event fn s =
     (case listeners s event of
        None \<Rightarrow> s\<lparr>listeners := (listeners s)(event \<mapsto> set_add fn [])\<rparr>
      | Some xs \<Rightarrow> s\<lparr>listeners := (listeners s)(event \<mapsto> set_add fn xs)\<rparr>)"

definition once :: "string \<Rightarrow> listener \<Rightarrow> emitter \<Rightarrow> emitter" where
  "once event fn s = on event fn (s\<lparr>once_marks := insert fn (once_marks s)\<rparr>)"

definition off :: "string \<Rightarrow> listener \<Rightarrow> emitter \<Rightarrow> emitter" where
  "off event fn s =
     (case listeners s event of
        None \<Rightarrow> s
      | Some xs \<Rightarrow>
          (let ys = set_delete fn xs
           in if ys = [] then s\<lparr>listeners := (listeners s)(event := None)\<rparr>
              else s\<lparr>listeners := (listeners s)(event \<mapsto> ys)\<rparr>))"

definition removeAllListeners :: "string option \<Rightarrow> emitter \<Rightarrow> emitter" where
  "removeAllListeners event s =
     (case event of
        Some e \<Rightarrow> (if e \<noteq> [] then s\<lparr>listeners := (listeners s)(e := None)\<rparr>
                   else s\<lparr>listeners := Map.empty\<rparr>)
      | None \<Rightarrow> s\<lparr>listeners := Map.empty\<rparr>)"

definition listenerCount :: "string \<Rightarrow> emitter \<Rightarrow> nat" where
  "listenerCount event s = (case listeners s event of None \<Rightarrow> 0 | Some xs \<Rightarrow> length xs)"

definition reset :: "emitter \<Rightarrow> emitter" where
  "reset s = s\<lparr>listeners := Map.empty, once_marks := {}\<rparr>"

text \<open>
  The first loop of \<^verbatim>\<open>emit\<close>: every snapshotted listener carrying the single-fire mark
  loses the mark and leaves the live set. The pair is (\<^verbatim>\<open>_once\<close>, live set).
\<close>

definition drop_once :: "listener \<Rightarrow> listener set \<times> listener list \<Rightarrow> listener set \<times> listener list" where
  "drop_once fn st =
     (if fn \<in> fst st then (fst st - {fn}, set_delete fn (snd st)) else st)"

definition remove_once :: "listener list \<Rightarrow> listener set \<times> listener list \<Rightarrow> listener set \<times> listener list" where
  "remove_once snapshot st = fold drop_once snapshot st"

text \<open>
  \<^verbatim>\<open>Promise.allSettled\<close> over the snapshot: each listener is called inside
  \<^verbatim>\<open>try\<close>/\<^verbatim>\<open>catch\<close>, a synchronous throw becoming a rejection. \<open>settled\<close> is the list of
  results in snapshot order, \<open>None\<close> for a fulfilled one and \<open>Some reason\<close> for a
  rejected one; \<open>first_rejected\<close> is \<^verbatim>\<open>results.find(r => r.status === 'rejected')\<close>.
\<close>

definition settled :: "listener list \<Rightarrow> string option list" where
  "settled snapshot = map (\<lambda>fn. awaited (ending fn)) snapshot"

fun first_rejected :: "string option list \<Rightarrow> string option" where
  "first_rejected [] = None"
| "first_rejected (None # rs) = first_rejected rs"
| "first_rejected (Some e # rs) = Some e"

text \<open>
  The part of \<^verbatim>\<open>emit\<close> that runs before any listener is called: the loop above over the
  snapshot, then \<^verbatim>\<open>if (set.size === 0) Emitter._listeners.delete(event)\<close>.
\<close>

definition detach_once :: "string \<Rightarrow> listener list \<Rightarrow> emitter \<Rightarrow> emitter" where
  "detach_once event snapshot s =
     (let st = remove_once snapshot (once_marks s, snapshot)
      in s\<lparr>once_marks := fst st,
            listeners := (if snd st = [] then (listeners s)(event := None)
                          else (listeners s)(event \<mapsto> snd st))\<rparr>)"

definition emit :: "string \<Rightarrow> emitter \<Rightarrow> (error + unit) \<times> emitter" where
  "emit event s =
     (case listeners s event of
        None \<Rightarrow> (Inr (), s)
      | Some live \<Rightarrow>
          if live = [] then (Inr (), s)
          else
            (let snapshot = live;
                 s1 = detach_once event snapshot s;
                 s2 = s1\<lparr>calls := calls s1 @ map (Pair event) snapshot\<rparr>
             in case first_rejected (settled snapshot) of
                  Some e \<Rightarrow> (Inl (Thrown e), s2)
                | None \<Rightarrow> (Inr (), s2)))"

text \<open>Whether \<open>fn\<close> is in the live subscriber set of \<open>event\<close>.\<close>

definition subscribed :: "string \<Rightarrow> listener \<Rightarrow> emitter \<Rightarrow> bool" where
  "subscribed event fn s =
     (case listeners s event of None \<Rightarrow> False | Some live \<Rightarrow> fn \<in> set live)"

text \<open>
  Successive calls of \<^verbatim>\<open>emit\<close>, whatever each of them raises: one call for each event of
  a list, and \<open>n\<close> calls for one event.
\<close>

fun emit_seq :: "string list \<Rightarrow> emitter \<Rightarrow> emitter" where
  "emit_seq [] s = s"
| "emit_seq (e # es) s = emit_seq es (snd (emit e s))"

fun emit_times :: "nat \<Rightarrow> string \<Rightarrow> emitter \<Rightarrow> emitter" where
  "emit_times 0 event s = s"
| "emit_times (Suc n) event s = emit_times n event (snd (emit event s))"

text \<open>How often \<open>fn\<close> has been called for \<open>event\<close>.\<close>

definition invocations :: "string \<Rightarrow> listener \<Rightarrow> emitter \<Rightarrow> nat" where
  "invocations event fn s = count_list (calls s) (event, fn)"

text \<open>A listener that always returns, used in the examples below.\<close>

definition f0 :: listener where
  "f0 = Listener 0 Returns"

text \<open>
  Two states of a function with respect to the bus: \<open>armed\<close>, marked single-fire and
  subscribed once to \<open>event\<close> and to no other event; \<open>absent\<close>, subscribed to no event.
\<close>

definition armed :: "string \<Rightarrow> listener \<Rightarrow> emitter \<Rightarrow> bool" where
  "armed event fn s \<longleftrightarrow>
     fn \<in> once_marks s
     \<and> (\<exists>live. listeners s event = Some live \<and> count_list live fn = 1)
     \<and> (\<forall>e'. e' \<noteq> event \<longrightarrow> \<not> subscribed e' fn s)"

definition absent :: "listener \<Rightarrow> emitter \<Rightarrow> bool" where
  "absent fn s \<longleftrightarrow> (\<forall>e. \<not> subscribed e fn s)"

section \<open>Service providers (core/service\_provider.ts)\<close>

text \<open>
  A provider has a name, its declared dependencies, and three hooks, each modelled by
  how a call to it ends. Two providers of one application are the same object exactly
  when they have the same name, since \<open>topologicalSort\<close> rejects a repeated name.
\<close>

record provider =
  name :: string
  dependencies :: "string list"
  registers :: outcome
  boots :: outcome
  shuts :: outcome

section \<open>Topological sort (Application.topologicalSort)\<close>

text \<open>The first loop: \<^verbatim>\<open>byName\<close>, failing on the first repeated name.\<close>

fun index_by_name :: "provider list \<Rightarrow> (string \<rightharpoonup> provider) \<Rightarrow> error + (string \<rightharpoonup> provider)" where
  "index_by_name [] byName = Inr byName"
| "index_by_name (p # ps) byName =
     (if byName (name p) \<noteq> None then Inl (DuplicateProviderName (name p))
      else index_by_name ps (byName(name p \<mapsto> p)))"

text \<open>
  \<^verbatim>\<open>inDegree\<close> is a \<^verbatim>\<open>Map\<close> that the code iterates, so it is an association list in
  insertion order (\<open>AList.update\<close> keeps the place of a key it already holds, as
  \<^verbatim>\<open>Map.set\<close> does). \<^verbatim>\<open>dependents\<close> and \<^verbatim>\<open>byName\<close> are only looked up.
\<close>

type_synonym degrees = "(string \<times> int) list"
type_synonym graph = "degrees \<times> (string \<rightharpoonup> string list)"

definition init_graph :: "provider list \<Rightarrow> graph" where
  "init_graph ps =
     fold (\<lambda>p g. (AList.update (name p) 0 (fst g), (snd g)(name p \<mapsto> []))) ps ([], Map.empty)"

fun add_edges :: "(string \<rightharpoonup> provider) \<Rightarrow> string \<Rightarrow> string list \<Rightarrow> graph \<Rightarrow> error + graph" where
  "add_edges byName pname [] g = Inr g"
| "add_edges byName pname (dep # deps) g =
     (if byName dep = None then Inl (UnknownDependency pname dep)
      else
        (let inDegree = AList.update pname
               ((case map_of (fst g) pname of None \<Rightarrow> 0 | Some d \<Rightarrow> d) + 1) (fst g)
         in case snd g dep of
              None \<Rightarrow> Inl Undefined
            | Some ds \<Rightarrow> add_edges byName pname deps (inDegree, (snd g)(dep \<mapsto> ds @ [pname]))))"

fun build_graph :: "(string \<rightharpoonup> provider) \<Rightarrow> provider list \<Rightarrow> graph \<Rightarrow> error + graph" where
  "build_graph byName [] g = Inr g"
| "build_graph byName (p # ps) g =
     (case add_edges byName (name p) (dependencies p) g of
        Inl e \<Rightarrow> Inl e
      | Inr g' \<Rightarrow> build_graph byName ps g')"

text \<open>The queue is seeded in the iteration order of the \<^verbatim>\<open>inDegree\<close> map.\<close>

definition initial_queue :: "degrees \<Rightarrow> string list" where
  "initial_queue inDegree = map fst (filter (\<lambda>(n, degree). degree = 0) inDegree)"

text \<open>
  The \<^verbatim>\<open>for\<close> loop over \<^verbatim>\<open>dependents.get(name)!\<close>: the pair is (\<^verbatim>\<open>inDegree\<close>, \<^verbatim>\<open>queue\<close>).
\<close>

fun release :: "string list \<Rightarrow> degrees \<times> string list \<Rightarrow> (degrees \<times> string list) option" where
  "release [] st = Some st"
| "release (dependent # ds) st =
     (case map_of (fst st) dependent of
        None \<Rightarrow> None
      | Some d \<Rightarrow>
          (let newDegree = d - 1;
               inDegree = AList.update dependent newDegree (fst st)
           in release ds (inDegree, if newDegree = 0 then snd st @ [dependent] else snd st)))"

definition pending :: "degrees \<Rightarrow> nat" where
  "pending inDegree = length (filter (\<lambda>(n, d). 0 < d) inDegree)"

text \<open>
  The \<^verbatim>\<open>while\<close> loop. Each round takes one name off the queue and adds a name only when
  its in-degree reaches zero, so twice the number of positive in-degrees plus the queue
  length falls in every round: the loop ends from every state.
\<close>

lemma pending_update:
  "map_of al k = Some d \<Longrightarrow>
   pending (AList.update k (d - 1) al) = (if d = 1 then pending al - 1 else pending al)
   \<and> (d = 1 \<longrightarrow> 0 < pending al)"
  unfolding pending_def
  by (induction al) (auto split: if_splits)

lemma release_measure:
  "release ds st = Some st' \<Longrightarrow>
   2 * pending (fst st') + length (snd st') \<le> 2 * pending (fst st) + length (snd st)"
proof (induction ds arbitrary: st)
  case Nil
  then show ?case by simp
next
  case (Cons a ds)
  then obtain d where d: "map_of (fst st) a = Some d"
    by (auto split: option.splits)
  let ?mid = "(AList.update a (d - 1) (fst st), if d - 1 = 0 then snd st @ [a] else snd st)"
  from Cons.prems d have "release ds ?mid = Some st'" by (simp add: Let_def)
  from Cons.IH[OF this] pending_update[OF d] show ?case
    by (auto split: if_splits)
qed

function kahn :: "(string \<rightharpoonup> provider) \<Rightarrow> (string \<rightharpoonup> string list) \<Rightarrow>
    string list \<Rightarrow> degrees \<Rightarrow> provider list \<Rightarrow> error + provider list" where
  "kahn byName dependents queue inDegree sorted' =
     (case queue of
        [] \<Rightarrow> Inr sorted'
      | nm # rest \<Rightarrow>
          (case byName nm of
             None \<Rightarrow> Inl Undefined
           | Some p \<Rightarrow>
               (case dependents nm of
                  None \<Rightarrow> Inl Undefined
                | Some ds \<Rightarrow>
                    (case release ds (inDegree, rest) of
                       None \<Rightarrow> Inl Undefined
                     | Some st \<Rightarrow> kahn byName dependents (snd st) (fst st) (sorted' @ [p])))))"
  by pat_completeness auto
termination
proof (relation "measure (\<lambda>(byName, dependents, queue, inDegree, sorted'). 2 * pending inDegree + length queue)")
  show "wf (measure (\<lambda>(byName, dependents, queue, inDegree, sorted'). 2 * pending inDegree + length queue))"
    by simp
next
  fix byName :: "string \<rightharpoonup> provider" and dependents :: "string \<rightharpoonup> string list"
    and queue :: "string list" and inDegree :: degrees and sorted' :: "provider list"
    and nm rest p ds st
  assume "queue = nm # rest" and "release ds (inDegree, rest) = Some st"
  from release_measure[OF this(2)] this(1)
  show "((byName, dependents, snd st, fst st, sorted' @ [p]), (byName, dependents, queue, inDegree, sorted'))
        \<in> measure (\<lambda>(byName, dependents, queue, inDegree, sorted'). 2 * pending inDegree + length queue)"
    by simp
qed

definition topologicalSort :: "provider list \<Rightarrow> error + provider list" where
  "topologicalSort ps =
     (case index_by_name ps Map.empty of
        Inl e \<Rightarrow> Inl e
      | Inr byName \<Rightarrow>
          (case build_graph byName ps (init_graph ps) of
             Inl e \<Rightarrow> Inl e
           | Inr g \<Rightarrow>
               (case kahn byName (snd g) (initial_queue (fst g)) (fst g) [] of
                  Inl e \<Rightarrow> Inl e
                | Inr sorted' \<Rightarrow>
                    if length sorted' \<noteq> length ps
                    then Inl (CircularDependency (map name (filter (\<lambda>p. p \<notin> set sorted') ps)))
                    else Inr sorted')))"


text \<open>
  Notions used to state what the sort does. \<open>known_deps\<close>: every declared dependency
  names a provider of the list. \<open>dep_rel\<close>: the dependency graph, an edge from a provider's
  name to each name it depends on. \<open>reaches_cycle\<close>: the provider is on a cycle of that
  graph or depends, directly or through others, on a provider that is.
  \<open>deps_before\<close>: every dependency of a provider of the list is the name of a provider at
  a strictly smaller position. \<open>dependents_of\<close> is the content of the \<^verbatim>\<open>dependents\<close> map
  after the third loop, \<open>unmet\<close> the number of dependencies not yet sorted, and
  \<open>graph_of\<close> and \<open>kahn_inv\<close> are the state of the maps after the loops that build them and
  the invariant of the \<^verbatim>\<open>while\<close> loop.
\<close>

definition known_deps :: "provider list \<Rightarrow> bool" where
  "known_deps ps \<longleftrightarrow> (\<forall>p \<in> set ps. set (dependencies p) \<subseteq> name ` set ps)"

definition dependents_of :: "provider list \<Rightarrow> string \<Rightarrow> string list" where
  "dependents_of ps d = concat (map (\<lambda>p. replicate (count_list (dependencies p) d) (name p)) ps)"

definition unmet :: "string set \<Rightarrow> provider \<Rightarrow> nat" where
  "unmet S p = length (filter (\<lambda>d. d \<notin> S) (dependencies p))"

definition deps_before :: "provider list \<Rightarrow> bool" where
  "deps_before out \<longleftrightarrow>
     (\<forall>i < length out. \<forall>d \<in> set (dependencies (out ! i)). \<exists>j < i. name (out ! j) = d)"

definition graph_of :: "provider list \<Rightarrow> (string \<rightharpoonup> provider) \<Rightarrow> (string \<rightharpoonup> string list) \<Rightarrow> bool" where
  "graph_of ps byName dm \<longleftrightarrow>
     distinct (map name ps) \<and> known_deps ps
     \<and> (\<forall>n p. (byName n = Some p) = (p \<in> set ps \<and> name p = n))
     \<and> (\<forall>d \<in> name ` set ps. dm d = Some (dependents_of ps d))"

definition kahn_inv :: "provider list \<Rightarrow> string list \<Rightarrow> degrees \<Rightarrow> provider list \<Rightarrow> bool" where
  "kahn_inv ps queue deg srt \<longleftrightarrow>
     set srt \<subseteq> set ps \<and> distinct (map name srt @ queue) \<and> set queue \<subseteq> name ` set ps
     \<and> map fst deg = map name ps
     \<and> (\<forall>p \<in> set ps. map_of deg (name p) = Some (int (unmet (name ` set srt) p)))
     \<and> (\<forall>p \<in> set ps. (name p \<in> name ` set srt \<union> set queue) = (unmet (name ` set srt) p = 0))
     \<and> deps_before srt"

definition dep_rel :: "provider list \<Rightarrow> (string \<times> string) set" where
  "dep_rel ps = set (concat (map (\<lambda>p. map (Pair (name p)) (dependencies p)) ps))"

definition reaches_cycle :: "provider list \<Rightarrow> string \<Rightarrow> bool" where
  "reaches_cycle ps n \<longleftrightarrow> (\<exists>c. (n, c) \<in> (dep_rel ps)\<^sup>* \<and> (c, c) \<in> (dep_rel ps)\<^sup>+)"

section \<open>Application (core/application.ts)\<close>

text \<open>What an observer of a run sees, oldest first.\<close>

datatype event =
    RegisterCalled string
  | BootCalled string
  | BootCompleted string
  | ShutdownCalled string
  | ErrorLogged string string
  | CallbackCalled outcome
  | TimerStarted
  | TimerCleared

record application =
  providers :: "provider list"
  bootedProviders :: "provider list"
  bootedCallbacks :: "outcome list"
  booted :: bool
  shuttingDown :: bool
  signalHandlers :: nat
  bus :: emitter
  trace :: "event list"

definition new_application :: "emitter \<Rightarrow> application" where
  "new_application b =
     \<lparr>providers = [], bootedProviders = [], bootedCallbacks = [], booted = False,
      shuttingDown = False, signalHandlers = 0, bus = b, trace = []\<rparr>"

definition observe :: "event \<Rightarrow> application \<Rightarrow> application" where
  "observe ev s = s\<lparr>trace := trace s @ [ev]\<rparr>"

definition use :: "provider \<Rightarrow> application \<Rightarrow> error + application" where
  "use p s =
     (if booted s then Inl (AlreadyStarted (name p))
      else Inr (s\<lparr>providers := providers s @ [p]\<rparr>))"

fun loadProviders :: "provider list \<Rightarrow> application \<Rightarrow> error + application" where
  "loadProviders [] s = Inr s"
| "loadProviders (p # ps) s =
     (case use p s of Inl e \<Rightarrow> Inl e | Inr s' \<Rightarrow> loadProviders ps s')"

definition onBooted :: "outcome \<Rightarrow> application \<Rightarrow> (error + unit) \<times> application" where
  "onBooted callback s =
     (if booted s then
        (case called callback of
           Some e \<Rightarrow> (Inl (Thrown e), observe (CallbackCalled callback) s)
         | None \<Rightarrow> (Inr (), observe (CallbackCalled callback) s))
      else (Inr (), s\<lparr>bootedCallbacks := bootedCallbacks s @ [callback]\<rparr>))"

text \<open>\<^verbatim>\<open>await Emitter.emit(event)\<close> on the application's bus.\<close>

definition publish :: "string \<Rightarrow> application \<Rightarrow> (error + unit) \<times> application" where
  "publish ev s = (case emit ev (bus s) of (r, b) \<Rightarrow> (r, s\<lparr>bus := b\<rparr>))"

text \<open>One round of the loop of \<^verbatim>\<open>shutdownProviders\<close>, with its \<^verbatim>\<open>try\<close>/\<^verbatim>\<open>catch\<close>.\<close>

definition shutdown_one :: "provider \<Rightarrow> application \<Rightarrow> application" where
  "shutdown_one p s =
     (case awaited (shuts p) of
        Some e \<Rightarrow> observe (ErrorLogged (name p) e) (observe (ShutdownCalled (name p)) s)
      | None \<Rightarrow> observe (ShutdownCalled (name p)) s)"

definition shutdownProviders :: "application \<Rightarrow> application" where
  "shutdownProviders s =
     (let reversed = rev (bootedProviders s)
      in (fold shutdown_one reversed s)\<lparr>bootedProviders := []\<rparr>)"

definition installSignalHandlers :: "application \<Rightarrow> application" where
  "installSignalHandlers s = s\<lparr>signalHandlers := Suc (signalHandlers s)\<rparr>"

definition removeSignalHandlers :: "application \<Rightarrow> application" where
  "removeSignalHandlers s = s\<lparr>signalHandlers := 0\<rparr>"

text \<open>Phase 1 of \<^verbatim>\<open>start\<close>: a plain call of each \<^verbatim>\<open>register\<close>, outside any \<^verbatim>\<open>try\<close>.\<close>

fun register_all :: "provider list \<Rightarrow> application \<Rightarrow> (error + unit) \<times> application" where
  "register_all [] s = (Inr (), s)"
| "register_all (p # ps) s =
     (case called (registers p) of
        Some e \<Rightarrow> (Inl (Thrown e), observe (RegisterCalled (name p)) s)
      | None \<Rightarrow> register_all ps (observe (RegisterCalled (name p)) s))"

text \<open>Phase 2 of \<^verbatim>\<open>start\<close>: each \<^verbatim>\<open>boot\<close> awaited in turn; the \<^verbatim>\<open>catch\<close> rolls back.\<close>

fun boot_all :: "provider list \<Rightarrow> application \<Rightarrow> (error + unit) \<times> application" where
  "boot_all [] s = (Inr (), s)"
| "boot_all (p # ps) s =
     (case awaited (boots p) of
        Some e \<Rightarrow> (Inl (Thrown e), shutdownProviders (observe (BootCalled (name p)) s))
      | None \<Rightarrow>
          boot_all ps
            ((observe (BootCompleted (name p)) (observe (BootCalled (name p)) s))
               \<lparr>bootedProviders := bootedProviders s @ [p]\<rparr>))"

fun run_callbacks :: "outcome list \<Rightarrow> application \<Rightarrow> (error + unit) \<times> application" where
  "run_callbacks [] s = (Inr (), s)"
| "run_callbacks (cb # cbs) s =
     (case awaited cb of
        Some e \<Rightarrow> (Inl (Thrown e), observe (CallbackCalled cb) s)
      | None \<Rightarrow> run_callbacks cbs (observe (CallbackCalled cb) s))"

definition start :: "application \<Rightarrow> (error + unit) \<times> application" where
  "start s =
     (if booted s then (Inr (), s)
      else
        (case publish ''app:starting'' s of
           (Inl e, s1) \<Rightarrow> (Inl e, s1)
         | (Inr u, s1) \<Rightarrow>
             (case topologicalSort (providers s1) of
                Inl e \<Rightarrow> (Inl e, s1)
              | Inr sorted' \<Rightarrow>
                  (case register_all sorted' s1 of
                     (Inl e, s2) \<Rightarrow> (Inl e, s2)
                   | (Inr u, s2) \<Rightarrow>
                       (case boot_all sorted' s2 of
                          (Inl e, s3) \<Rightarrow> (Inl e, s3)
                        | (Inr u, s3) \<Rightarrow>
                            (case run_callbacks (bootedCallbacks s3) (s3\<lparr>booted := True\<rparr>) of
                               (Inl e, s4) \<Rightarrow> (Inl e, s4)
                             | (Inr u, s4) \<Rightarrow>
                                 publish ''app:booted'' (installSignalHandlers s4)))))))"

text \<open>
  \<^verbatim>\<open>shutdown\<close>. \<^verbatim>\<open>shutdownProviders\<close> catches every error itself, so the \<^verbatim>\<open>finally\<close> block
  always follows it. The deadline timer only matters in real time: the model records
  that it is started and cleared.
\<close>

definition shutdown :: "application \<Rightarrow> (error + unit) \<times> application" where
  "shutdown s =
     (if shuttingDown s then (Inr (), s)
      else
        (case publish ''app:shutdown'' (s\<lparr>shuttingDown := True\<rparr>) of
           (Inl e, s1) \<Rightarrow> (Inl e, s1)
         | (Inr u, s1) \<Rightarrow>
             (let s2 = shutdownProviders (observe TimerStarted s1);
                  s3 = (removeSignalHandlers (observe TimerCleared s2))
                         \<lparr>booted := False, shuttingDown := False\<rparr>
              in publish ''app:terminated'' s3)))"

text \<open>
  The events that a list of providers leaves in the trace when each is registered, when
  each boots successfully, and when each is shut down (a failing \<^verbatim>\<open>shutdown\<close> is followed
  by the logged error); and the names in a trace of the providers whose \<^verbatim>\<open>shutdown\<close> was
  called, whose \<^verbatim>\<open>boot\<close> was called, and whose \<^verbatim>\<open>boot\<close> completed.
\<close>

definition register_events :: "provider list \<Rightarrow> event list" where
  "register_events ps = map (\<lambda>p. RegisterCalled (name p)) ps"

definition boot_events :: "provider list \<Rightarrow> event list" where
  "boot_events ps = concat (map (\<lambda>p. [BootCalled (name p), BootCompleted (name p)]) ps)"

definition shutdown_events :: "provider list \<Rightarrow> event list" where
  "shutdown_events ps =
     concat (map (\<lambda>p. ShutdownCalled (name p) #
                        (case awaited (shuts p) of Some e \<Rightarrow> [ErrorLogged (name p) e] | None \<Rightarrow> [])) ps)"

fun shutdown_calls :: "event list \<Rightarrow> string list" where
  "shutdown_calls [] = []"
| "shutdown_calls (ShutdownCalled n # t) = n # shutdown_calls t"
| "shutdown_calls (ev # t) = shutdown_calls t"

fun boot_calls :: "event list \<Rightarrow> string list" where
  "boot_calls [] = []"
| "boot_calls (BootCalled n # t) = n # boot_calls t"
| "boot_calls (ev # t) = boot_calls t"

fun completed_boots :: "event list \<Rightarrow> string list" where
  "completed_boots [] = []"
| "completed_boots (BootCompleted n # t) = n # completed_boots t"
| "completed_boots (ev # t) = completed_boots t"

text \<open>
  Example providers and applications for the concrete runs below: the three providers of
  the specification's example, where the \<^verbatim>\<open>boot\<close> of the database provider throws; a bus
  with one subscriber of the shutdown event that throws; an application with one provider
  on that bus.
\<close>

definition cfg :: provider where
  "cfg = \<lparr>name = ''config'', dependencies = [], registers = Returns, boots = Returns, shuts = Returns\<rparr>"

definition db :: provider where
  "db = \<lparr>name = ''database'', dependencies = [''config''], registers = Returns,
         boots = Throws ''no connection'', shuts = Returns\<rparr>"

definition auth :: provider where
  "auth = \<lparr>name = ''auth'', dependencies = [''database''], registers = Returns, boots = Returns, shuts = Returns\<rparr>"

definition failing_bus :: emitter where
  "failing_bus = on ''app:shutdown'' (Listener 1 (Throws ''boom'')) new_emitter"

definition wedged_app :: application where
  "wedged_app = (new_application failing_bus)\<lparr>providers := [cfg]\<rparr>"

definition loop_a :: provider where
  "loop_a = \<lparr>name = ''a'', dependencies = [''b''], registers = Returns, boots = Returns, shuts = Returns\<rparr>"

definition loop_b :: provider where
  "loop_b = \<lparr>name = ''b'', dependencies = [''a''], registers = Returns, boots = Returns, shuts = Returns\<rparr>"

section \<open>Container (core/container.ts)\<close>

text \<open>
  A factory is a closure that receives the container. It resolves what it needs from the
  container, in order, and then constructs a new object, hands out an object that already
  exists, or throws. What it needs and how it ends may depend on state of its own, such as
  whether it has run before; that state is modelled as a function of the factory executions
  that have happened before this one (\<open>runs\<close>). \<^verbatim>\<open>classToFactory\<close> builds the factory that
  always resolves the constructor's parameter types and then constructs. Objects are
  references, numbered in the order of their construction. A factory that binds keys while
  it runs, or that catches the error of a \<^verbatim>\<open>resolve\<close> it calls, is not covered.
\<close>

datatype body = Construct | Hand nat | Break string

datatype factory = Factory (needs: "key list \<Rightarrow> key list") (body: "key list \<Rightarrow> body")

definition classToFactory :: "key list \<Rightarrow> factory" where
  "classToFactory paramTypes = Factory (\<lambda>h. paramTypes) (\<lambda>h. Construct)"

text \<open>\<open>runs\<close> records every execution of a factory, by the key it was called for.\<close>

record container =
  factories :: "key \<rightharpoonup> factory \<times> bool"
  instances :: "key \<rightharpoonup> nat"
  allocated :: nat
  runs :: "key list"

definition new_container :: container where
  "new_container = \<lparr>factories = Map.empty, instances = Map.empty, allocated = 0, runs = []\<rparr>"


definition singleton :: "key \<Rightarrow> factory \<Rightarrow> container \<Rightarrow> container" where
  "singleton k f c = c\<lparr>factories := (factories c)(k \<mapsto> (f, True))\<rparr>"


text \<open>
  \<^verbatim>\<open>resolve\<close> and the factory it calls are mutually recursive. The first argument is the
  number of nested calls of \<^verbatim>\<open>resolve\<close> for which the call stack still has room; a call made
  when there is none throws \<^verbatim>\<open>RangeError\<close>, as the engine does, and the error propagates
  through the factories like any other. A singleton is cached when its factory returns,
  whatever the cache holds by then.
\<close>

fun resolve :: "nat \<Rightarrow> key \<Rightarrow> container \<Rightarrow> (error + nat) \<times> container"
  and run_factory :: "nat \<Rightarrow> key \<Rightarrow> factory \<Rightarrow> container \<Rightarrow> (error + nat) \<times> container"
  and resolve_each :: "nat \<Rightarrow> key list \<Rightarrow> container \<Rightarrow> (error + nat list) \<times> container"
where
  "resolve 0 k c = (Inl RangeError, c)"
| "resolve (Suc d) k c =
     (case factories c k of
        None \<Rightarrow> (Inl (NotRegistered k), c)
      | Some entry \<Rightarrow>
          if snd entry then
            (case instances c k of
               Some v \<Rightarrow> (Inr v, c)
             | None \<Rightarrow>
                 (case run_factory d k (fst entry) c of
                    (Inl e, c1) \<Rightarrow> (Inl e, c1)
                  | (Inr v, c1) \<Rightarrow> (Inr v, c1\<lparr>instances := (instances c1)(k \<mapsto> v)\<rparr>)))
          else run_factory d k (fst entry) c)"
| "run_factory d k f c =
     (case resolve_each d (needs f (runs c)) (c\<lparr>runs := runs c @ [k]\<rparr>) of
        (Inl e, c1) \<Rightarrow> (Inl e, c1)
      | (Inr args, c1) \<Rightarrow>
          (case body f (runs c) of
             Break e \<Rightarrow> (Inl (Thrown e), c1)
           | Hand v \<Rightarrow> (Inr v, c1)
           | Construct \<Rightarrow> (Inr (allocated c1), c1\<lparr>allocated := Suc (allocated c1)\<rparr>)))"
| "resolve_each d [] c = (Inr [], c)"
| "resolve_each d (k # ks) c =
     (case resolve d k c of
        (Inl e, c1) \<Rightarrow> (Inl e, c1)
      | (Inr v, c1) \<Rightarrow>
          (case resolve_each d ks c1 of
             (Inl e, c2) \<Rightarrow> (Inl e, c2)
           | (Inr vs, c2) \<Rightarrow> (Inr (v # vs), c2)))"









definition reentrant :: factory where
  "reentrant = Factory (\<lambda>h. if Ctor 1 \<in> set h then [] else [Ctor 1]) (\<lambda>h. Construct)"

text \<open>The equation of \<open>run_factory\<close> applies to every call; it is unfolded on request only.\<close>

declare run_factory.simps [simp del]

section \<open>Properties of the event bus\<close>

lemma remove_once_eq:
  "remove_once snapshot (M, L) = (M - set snapshot, filter (\<lambda>x. x \<notin> M \<inter> set snapshot) L)"
  unfolding remove_once_def
proof (induction snapshot arbitrary: M L)
  case Nil
  then show ?case by simp
next
  case (Cons fn rest)
  show ?case
  proof (cases "fn \<in> M")
    case True
    have "filter (\<lambda>x. x \<notin> (M - {fn}) \<inter> set rest) (removeAll fn L)
          = filter (\<lambda>x. x \<notin> M \<inter> set (fn # rest)) L"
      using True by (induction L) auto
    moreover have "M - {fn} - set rest = M - set (fn # rest)" by auto
    ultimately show ?thesis using True Cons.IH[of "M - {fn}" "removeAll fn L"]
      by (simp add: drop_once_def set_delete_def)
  next
    case False
    have "filter (\<lambda>x. x \<notin> M \<inter> set rest) L = filter (\<lambda>x. x \<notin> M \<inter> set (fn # rest)) L"
      using False by (induction L) auto
    moreover have "M - set rest = M - set (fn # rest)" using False by auto
    ultimately show ?thesis using False Cons.IH[of M L]
      by (simp add: drop_once_def)
  qed
qed

lemma emit_idle:
  "listeners s event = None \<or> listeners s event = Some [] \<Longrightarrow> emit event s = (Inr (), s)"
  by (auto simp: emit_def)

lemma emit_calls:
  "listeners s event = Some snapshot \<Longrightarrow> snapshot \<noteq> [] \<Longrightarrow>
   calls (snd (emit event s)) = calls s @ map (Pair event) snapshot"
  by (simp add: emit_def detach_once_def Let_def split: option.splits)

lemma emit_marks:
  "listeners s event = Some snapshot \<Longrightarrow> snapshot \<noteq> [] \<Longrightarrow>
   once_marks (snd (emit event s)) = once_marks s - set snapshot"
  by (simp add: emit_def detach_once_def Let_def remove_once_eq split: option.splits)

lemma emit_live:
  "listeners s event = Some snapshot \<Longrightarrow> snapshot \<noteq> [] \<Longrightarrow>
   listeners (snd (emit event s)) =
     (let live = filter (\<lambda>x. x \<notin> once_marks s) snapshot
      in if live = [] then (listeners s)(event := None) else (listeners s)(event \<mapsto> live))"
proof -
  assume a: "listeners s event = Some snapshot" "snapshot \<noteq> []"
  have "filter (\<lambda>x. x \<notin> once_marks s \<inter> set snapshot) snapshot = filter (\<lambda>x. x \<notin> once_marks s) snapshot"
    by (rule filter_cong) auto
  then show ?thesis using a
    by (simp add: emit_def detach_once_def Let_def remove_once_eq split: option.splits)
qed

lemma emit_result:
  "listeners s event = Some snapshot \<Longrightarrow> snapshot \<noteq> [] \<Longrightarrow>
   fst (emit event s) = (case first_rejected (settled snapshot) of Some e \<Rightarrow> Inl (Thrown e) | None \<Rightarrow> Inr ())"
  by (simp add: emit_def detach_once_def Let_def split: option.splits)

lemma first_rejected_none:
  "(\<forall>fn \<in> set snapshot. awaited (ending fn) = None) \<Longrightarrow> first_rejected (settled snapshot) = None"
  by (induction snapshot) (auto simp: settled_def)

lemma first_rejected_some:
  "(\<forall>g \<in> set pre. awaited (ending g) = None) \<Longrightarrow> awaited (ending fn) = Some e \<Longrightarrow>
   first_rejected (settled (pre @ fn # post)) = Some e"
  by (induction pre) (auto simp: settled_def)

text \<open>
  Claim C6. \<^verbatim>\<open>emit\<close> on an event without subscribers returns at once, without error and
  without touching the bus. Otherwise every listener of the snapshot is called, whatever
  the others do; when all of them succeed \<^verbatim>\<open>emit\<close> returns normally, and when some fail
  it throws the reason of the first failing one in snapshot order. The snapshot order is
  the order of registration: \<^verbatim>\<open>on\<close> puts a new listener last.
\<close>

theorem emit_settles_all:
  "(listeners s event = None \<or> listeners s event = Some [] \<longrightarrow> emit event s = (Inr (), s))
   \<and> (\<forall>snapshot. listeners s event = Some snapshot \<and> snapshot \<noteq> [] \<longrightarrow>
        calls (snd (emit event s)) = calls s @ map (Pair event) snapshot
        \<and> ((\<forall>fn \<in> set snapshot. awaited (ending fn) = None) \<longrightarrow> fst (emit event s) = Inr ())
        \<and> (\<forall>pre fn post e. snapshot = pre @ fn # post
              \<and> (\<forall>g \<in> set pre. awaited (ending g) = None) \<and> awaited (ending fn) = Some e
              \<longrightarrow> fst (emit event s) = Inl (Thrown e)))
   \<and> (\<forall>live fn. listeners s event = Some live \<and> fn \<notin> set live \<longrightarrow>
        listeners (on event fn s) event = Some (live @ [fn]))"
proof (intro conjI allI impI)
  assume "listeners s event = None \<or> listeners s event = Some []"
  then show "emit event s = (Inr (), s)" by (rule emit_idle)
next
  fix snapshot assume "listeners s event = Some snapshot \<and> snapshot \<noteq> []"
  then show "calls (snd (emit event s)) = calls s @ map (Pair event) snapshot"
    by (simp add: emit_calls)
next
  fix snapshot
  assume "listeners s event = Some snapshot \<and> snapshot \<noteq> []"
    and "\<forall>fn \<in> set snapshot. awaited (ending fn) = None"
  then show "fst (emit event s) = Inr ()"
    by (simp add: emit_result first_rejected_none)
next
  fix snapshot pre fn post e
  assume "listeners s event = Some snapshot \<and> snapshot \<noteq> []"
    and "snapshot = pre @ fn # post \<and> (\<forall>g \<in> set pre. awaited (ending g) = None)
         \<and> awaited (ending fn) = Some e"
  then show "fst (emit event s) = Inl (Thrown e)"
    by (simp add: emit_result first_rejected_some)
next
  fix live fn assume "listeners s event = Some live \<and> fn \<notin> set live"
  then show "listeners (on event fn s) event = Some (live @ [fn])"
    by (simp add: on_def set_add_def)
qed

theorem emit_settles_all_witness:
  "calls (snd (emit ''e'' (on ''e'' (Listener 2 Returns) (on ''e'' (Listener 1 (Throws ''e1'')) new_emitter))))
     = [(''e'', Listener 1 (Throws ''e1'')), (''e'', Listener 2 Returns)]
   \<and> fst (emit ''e'' (on ''e'' (Listener 2 Returns) (on ''e'' (Listener 1 (Throws ''e1'')) new_emitter)))
     = Inl (Thrown ''e1'')
   \<and> emit ''e'' new_emitter = (Inr (), new_emitter)"
proof -
  let ?s = "on ''e'' (Listener 2 Returns) (on ''e'' (Listener 1 (Throws ''e1'')) new_emitter)"
  have l: "listeners ?s ''e'' = Some [Listener 1 (Throws ''e1''), Listener 2 Returns]"
    by (simp add: on_def new_emitter_def set_add_def)
  have c: "calls ?s = []" by (simp add: on_def new_emitter_def set_add_def)
  have n: "listeners new_emitter ''e'' = None" by (simp add: new_emitter_def)
  from emit_settles_all[of ?s "''e''"] l c
  have "calls (snd (emit ''e'' ?s)) = [(''e'', Listener 1 (Throws ''e1'')), (''e'', Listener 2 Returns)]"
    by simp
  moreover from emit_settles_all[of ?s "''e''"] l
  have "fst (emit ''e'' ?s) = Inl (Thrown ''e1'')"
    by (elim conjE allE[of _ "[Listener 1 (Throws ''e1''), Listener 2 Returns]"]) 
       (drule mp, simp, elim conjE allE[of _ "[]"], drule spec[of _ "Listener 1 (Throws ''e1'')"], 
        drule spec[of _ "[Listener 2 Returns]"], drule spec[of _ "''e1''"], simp)
  moreover from emit_settles_all[of new_emitter "''e''"] n
  have "emit ''e'' new_emitter = (Inr (), new_emitter)" by simp
  ultimately show ?thesis by simp
qed


lemma count_list_Pair:
  "count_list (map (Pair e) xs) (e', x) = (if e = e' then count_list xs x else 0)"
  by (induction xs) auto

lemma emit_invocations:
  "listeners s e = Some snapshot \<Longrightarrow> snapshot \<noteq> [] \<Longrightarrow>
   invocations e' fn (snd (emit e s)) =
     invocations e' fn s + (if e = e' then count_list snapshot fn else 0)"
  by (simp add: invocations_def emit_calls count_list_Pair)

lemma emit_unsubscribed:
  assumes "\<not> subscribed e fn s"
  shows "\<not> subscribed e fn (snd (emit e s)) \<and> invocations e fn (snd (emit e s)) = invocations e fn s"
proof (cases "listeners s e")
  case None
  then show ?thesis using assms by (simp add: emit_idle)
next
  case (Some live)
  show ?thesis
  proof (cases "live = []")
    case True
    then show ?thesis using assms Some by (simp add: emit_idle)
  next
    case False
    from assms Some have nin: "fn \<notin> set live" by (simp add: subscribed_def)
    then have "count_list live fn = 0" by (simp add: count_list_0_iff)
    then show ?thesis using Some False nin
      by (auto simp: emit_invocations emit_live subscribed_def Let_def)
  qed
qed

lemma emit_times_unsubscribed:
  "\<not> subscribed e fn s \<Longrightarrow>
   \<not> subscribed e fn (emit_times n e s) \<and> invocations e fn (emit_times n e s) = invocations e fn s"
proof (induction n arbitrary: s)
  case 0
  then show ?case by simp
next
  case (Suc n)
  from emit_unsubscribed[OF Suc.prems] Suc.IH[of "snd (emit e s)"]
  show ?case by simp
qed

lemma emit_marked:
  assumes "fn \<in> once_marks s" "subscribed e fn s"
  shows "\<not> subscribed e fn (snd (emit e s)) \<and> fn \<notin> once_marks (snd (emit e s))
         \<and> invocations e fn (snd (emit e s)) > invocations e fn s
         \<and> (\<forall>e'. e' \<noteq> e \<longrightarrow> listeners (snd (emit e s)) e' = listeners s e')"
proof -
  from assms(2) obtain live where l: "listeners s e = Some live" "fn \<in> set live"
    by (auto simp: subscribed_def split: option.splits)
  then have ne: "live \<noteq> []" by auto
  have "count_list live fn > 0" using l(2) count_list_0_iff[of live fn] by auto
  then show ?thesis using l ne assms(1)
    by (auto simp: emit_invocations emit_live emit_marks subscribed_def Let_def)
qed

lemma emit_unmarked:
  assumes "fn \<notin> once_marks s" "subscribed e fn s"
  shows "subscribed e fn (snd (emit e s)) \<and> fn \<notin> once_marks (snd (emit e s))
         \<and> invocations e fn (snd (emit e s)) > invocations e fn s"
proof -
  from assms(2) obtain live where l: "listeners s e = Some live" "fn \<in> set live"
    by (auto simp: subscribed_def split: option.splits)
  then have ne: "live \<noteq> []" by auto
  have "count_list live fn > 0" using l(2) count_list_0_iff[of live fn] by auto
  moreover have "filter (\<lambda>x. x \<notin> once_marks s) live \<noteq> []"
    using l(2) assms(1) by (auto simp: filter_empty_conv)
  ultimately show ?thesis using l ne assms(1)
    by (auto simp: emit_invocations emit_live emit_marks subscribed_def Let_def)
qed

lemma emit_times_unmarked:
  "fn \<notin> once_marks s \<Longrightarrow> subscribed e fn s \<Longrightarrow>
   subscribed e fn (emit_times n e s) \<and> invocations e fn (emit_times n e s) \<ge> invocations e fn s + n"
proof (induction n arbitrary: s)
  case 0
  then show ?case by simp
next
  case (Suc n)
  from emit_unmarked[OF Suc.prems] Suc.IH[of "snd (emit e s)"]
  show ?case by auto
qed

lemma rearm_state:
  "fn \<in> once_marks (on e fn (off e fn (once e fn s)))
   \<and> subscribed e fn (on e fn (off e fn (once e fn s)))"
  by (auto simp: on_def off_def once_def subscribed_def set_add_def set_delete_def Let_def
      split: option.splits)

lemma shared_once_state:
  "listeners (once ''b'' f0 (once ''a'' f0 new_emitter)) = [''a'' \<mapsto> [f0], ''b'' \<mapsto> [f0]]"
  "once_marks (once ''b'' f0 (once ''a'' f0 new_emitter)) = {f0}"
  "calls (once ''b'' f0 (once ''a'' f0 new_emitter)) = []"
  by (auto simp: once_def on_def new_emitter_def set_add_def)

text \<open>
  Claim C10. The single-fire mark belongs to the function, not to the pair of event and
  function. After \<^verbatim>\<open>once(e, fn)\<close>, \<^verbatim>\<open>off(e, fn)\<close> and \<^verbatim>\<open>on(e, fn)\<close> the function still carries
  the mark: the next \<^verbatim>\<open>emit(e)\<close> calls it and removes it, and no later \<^verbatim>\<open>emit(e)\<close> calls it.
  When a marked function is subscribed to two events, the first \<^verbatim>\<open>emit\<close> of one of them
  clears the mark and removes the function from that event only: for the other event it
  stays subscribed and is called by every \<^verbatim>\<open>emit\<close>, however many follow.
\<close>

theorem once_mark_follows_function:
  "(fn \<in> once_marks (on e fn (off e fn (once e fn s)))
    \<and> subscribed e fn (on e fn (off e fn (once e fn s)))
    \<and> invocations e fn (emit_times 1 e (on e fn (off e fn (once e fn s))))
        > invocations e fn (on e fn (off e fn (once e fn s)))
    \<and> (\<forall>n. \<not> subscribed e fn (emit_times (Suc n) e (on e fn (off e fn (once e fn s))))
          \<and> invocations e fn (emit_times (Suc n) e (on e fn (off e fn (once e fn s))))
              = invocations e fn (emit_times 1 e (on e fn (off e fn (once e fn s))))))
   \<and> (e1 \<noteq> e2 \<and> fn \<in> once_marks s \<and> subscribed e1 fn s \<and> subscribed e2 fn s \<longrightarrow>
        \<not> subscribed e1 fn (snd (emit e1 s))
        \<and> fn \<notin> once_marks (snd (emit e1 s))
        \<and> (\<forall>n. subscribed e2 fn (emit_times n e2 (snd (emit e1 s)))
              \<and> invocations e2 fn (emit_times n e2 (snd (emit e1 s)))
                  \<ge> invocations e2 fn (snd (emit e1 s)) + n))"
proof (intro conjI allI impI)
  let ?s = "on e fn (off e fn (once e fn s))"
  note m = emit_marked[OF conjunct1[OF rearm_state] conjunct2[OF rearm_state], of e fn s]
  show "fn \<in> once_marks ?s" "subscribed e fn ?s" using rearm_state by auto
  show "invocations e fn ?s < invocations e fn (emit_times 1 e ?s)" using m by simp
  fix n
  from m have u: "\<not> subscribed e fn (snd (emit e ?s))" by simp
  from emit_times_unsubscribed[OF u, of n]
  show "\<not> subscribed e fn (emit_times (Suc n) e ?s)"
    "invocations e fn (emit_times (Suc n) e ?s) = invocations e fn (emit_times 1 e ?s)"
    by simp_all
next
  assume a: "e1 \<noteq> e2 \<and> fn \<in> once_marks s \<and> subscribed e1 fn s \<and> subscribed e2 fn s"
  then have m: "\<not> subscribed e1 fn (snd (emit e1 s))" "fn \<notin> once_marks (snd (emit e1 s))"
    "listeners (snd (emit e1 s)) e2 = listeners s e2"
    using emit_marked[of fn s e1] by auto
  show "\<not> subscribed e1 fn (snd (emit e1 s))" "fn \<notin> once_marks (snd (emit e1 s))"
    using m by auto
  fix n
  from m(3) a have "subscribed e2 fn (snd (emit e1 s))" by (simp add: subscribed_def)
  from emit_times_unmarked[OF m(2) this, of n]
  show "subscribed e2 fn (emit_times n e2 (snd (emit e1 s)))"
    "invocations e2 fn (snd (emit e1 s)) + n \<le> invocations e2 fn (emit_times n e2 (snd (emit e1 s)))"
    by auto
qed

theorem once_mark_follows_function_witness:
  "\<not> subscribed ''b'' f0 (snd (emit ''b'' (once ''b'' f0 (once ''a'' f0 new_emitter))))
   \<and> subscribed ''a'' f0 (emit_times 2 ''a'' (snd (emit ''b'' (once ''b'' f0 (once ''a'' f0 new_emitter)))))
   \<and> invocations ''a'' f0 (emit_times 2 ''a'' (snd (emit ''b'' (once ''b'' f0 (once ''a'' f0 new_emitter))))) \<ge> 2"
proof -
  let ?s = "once ''b'' f0 (once ''a'' f0 new_emitter)"
  have h: "''b'' \<noteq> ''a'' \<and> f0 \<in> once_marks ?s \<and> subscribed ''b'' f0 ?s \<and> subscribed ''a'' f0 ?s"
    by (simp add: shared_once_state subscribed_def)
  from once_mark_follows_function[of f0 "''z''" ?s "''b''" "''a''"] h
  have "\<not> subscribed ''b'' f0 (snd (emit ''b'' ?s))"
    and "\<forall>n. subscribed ''a'' f0 (emit_times n ''a'' (snd (emit ''b'' ?s)))
           \<and> invocations ''a'' f0 (emit_times n ''a'' (snd (emit ''b'' ?s)))
               \<ge> invocations ''a'' f0 (snd (emit ''b'' ?s)) + n"
    by blast+
  from this(1) this(2)[rule_format, of 2] show ?thesis by simp
qed

lemma emit_other_listeners:
  "e' \<noteq> e \<Longrightarrow> listeners (snd (emit e s)) e' = listeners s e'"
proof (cases "listeners s e")
  case None
  then show ?thesis by (simp add: emit_idle)
next
  case (Some live)
  assume "e' \<noteq> e"
  then show ?thesis using Some
    by (cases "live = []") (auto simp: emit_idle emit_live Let_def)
qed

lemma emit_subscribed_mono:
  "subscribed e' fn (snd (emit e s)) \<Longrightarrow> subscribed e' fn s"
proof (cases "listeners s e")
  case None
  assume "subscribed e' fn (snd (emit e s))"
  then show ?thesis using None by (simp add: emit_idle)
next
  case (Some live)
  assume a: "subscribed e' fn (snd (emit e s))"
  show ?thesis
  proof (cases "live = []")
    case True
    then show ?thesis using a Some by (simp add: emit_idle)
  next
    case False
    then show ?thesis using a Some
      by (auto simp: emit_live subscribed_def Let_def split: if_splits option.splits)
  qed
qed

lemma emit_absent:
  "absent fn s \<Longrightarrow> absent fn (snd (emit e s)) \<and> invocations e' fn (snd (emit e s)) = invocations e' fn s"
proof -
  assume a: "absent fn s"
  have 1: "absent fn (snd (emit e s))"
    using a emit_subscribed_mono unfolding absent_def by blast
  have 2: "invocations e' fn (snd (emit e s)) = invocations e' fn s"
  proof (cases "listeners s e")
    case None
    then show ?thesis by (simp add: emit_idle)
  next
    case (Some live)
    show ?thesis
    proof (cases "live = []")
      case True
      then show ?thesis using Some by (simp add: emit_idle)
    next
      case False
      from a have "\<not> subscribed e fn s" by (simp add: absent_def)
      with Some have "fn \<notin> set live" by (simp add: subscribed_def)
      then have "count_list live fn = 0" by (simp add: count_list_0_iff)
      then show ?thesis using Some False by (simp add: emit_invocations)
    qed
  qed
  from 1 2 show ?thesis by simp
qed

lemma emit_seq_absent:
  "absent fn s \<Longrightarrow> absent fn (emit_seq es s) \<and> invocations e' fn (emit_seq es s) = invocations e' fn s"
proof (induction es arbitrary: s)
  case Nil
  then show ?case by simp
next
  case (Cons e es)
  from emit_absent[OF Cons.prems, where e=e and e'=e'] Cons.IH[of "snd (emit e s)"]
  show ?case by simp
qed

lemma emit_armed_other:
  assumes "armed event fn s" "e \<noteq> event"
  shows "armed event fn (snd (emit e s)) \<and> invocations event fn (snd (emit e s)) = invocations event fn s"
proof (cases "listeners s e")
  case None
  then show ?thesis using assms by (simp add: emit_idle)
next
  case (Some live)
  show ?thesis
  proof (cases "live = []")
    case True
    then show ?thesis using assms Some by (simp add: emit_idle)
  next
    case False
    from assms Some have nin: "fn \<notin> set live" by (auto simp: armed_def subscribed_def)
    have m: "fn \<in> once_marks (snd (emit e s))"
      using assms(1) nin Some False by (simp add: emit_marks armed_def)
    have l: "listeners (snd (emit e s)) event = listeners s event"
      using assms(2) by (simp add: emit_other_listeners)
    have o: "\<forall>e'. e' \<noteq> event \<longrightarrow> \<not> subscribed e' fn (snd (emit e s))"
      using assms(1) emit_subscribed_mono unfolding armed_def by blast
    have i: "invocations event fn (snd (emit e s)) = invocations event fn s"
      using Some False assms(2) by (simp add: emit_invocations)
    from m l o i assms(1) show ?thesis by (simp add: armed_def)
  qed
qed

lemma detach_armed:
  assumes "armed event fn s" "listeners s event = Some snapshot"
  shows "absent fn (detach_once event snapshot s)"
proof -
  from assms have mk: "fn \<in> once_marks s" and o: "\<forall>e'. e' \<noteq> event \<longrightarrow> \<not> subscribed e' fn s"
    by (auto simp: armed_def)
  have "\<not> subscribed e fn (detach_once event snapshot s)" for e
  proof (cases "e = event")
    case True
    then show ?thesis using mk
      by (auto simp: detach_once_def remove_once_eq subscribed_def Let_def)
  next
    case False
    then show ?thesis using o
      by (auto simp: detach_once_def remove_once_eq subscribed_def Let_def)
  qed
  then show ?thesis by (simp add: absent_def)
qed

lemma emit_armed_same:
  assumes "armed event fn s"
  shows "absent fn (snd (emit event s)) \<and> invocations event fn (snd (emit event s)) = invocations event fn s + 1"
proof -
  from assms obtain live where l: "listeners s event = Some live" "count_list live fn = 1"
    by (auto simp: armed_def)
  then have ne: "live \<noteq> []" by auto
  from detach_armed[OF assms l(1)] have "absent fn (detach_once event live s)" .
  then have "absent fn (snd (emit event s))" using l(1) ne
    by (simp add: emit_def Let_def absent_def subscribed_def split: option.splits)
  then show ?thesis using l ne by (simp add: emit_invocations)
qed

lemma emit_seq_armed:
  "armed event fn s \<Longrightarrow>
   invocations event fn (emit_seq es s) = invocations event fn s + (if event \<in> set es then 1 else 0)"
proof (induction es arbitrary: s)
  case Nil
  then show ?case by simp
next
  case (Cons e es)
  show ?case
  proof (cases "e = event")
    case True
    from emit_armed_same[OF Cons.prems] True
    have a: "absent fn (snd (emit e s))" "invocations event fn (snd (emit e s)) = invocations event fn s + 1"
      by auto
    from emit_seq_absent[OF a(1), where e'=event and es=es] a(2) True show ?thesis by simp
  next
    case False
    from emit_armed_other[OF Cons.prems False]
    have a: "armed event fn (snd (emit e s))" "invocations event fn (snd (emit e s)) = invocations event fn s"
      by auto
    from Cons.IH[OF a(1)] a(2) False show ?thesis by simp
  qed
qed

lemma count_list_distinct:
  "distinct xs \<Longrightarrow> x \<in> set xs \<Longrightarrow> count_list xs x = 1"
  by (induction xs) auto

lemma once_armed:
  assumes "\<forall>e'. e' \<noteq> event \<longrightarrow> \<not> subscribed e' fn s"
    and "\<forall>live. listeners s event = Some live \<longrightarrow> distinct live"
  shows "armed event fn (once event fn s) \<and> invocations event fn (once event fn s) = invocations event fn s"
proof -
  have m: "fn \<in> once_marks (once event fn s)"
    by (auto simp: once_def on_def split: option.splits)
  have c: "\<exists>live. listeners (once event fn s) event = Some live \<and> count_list live fn = 1"
  proof (cases "listeners s event")
    case None
    then show ?thesis by (simp add: once_def on_def set_add_def)
  next
    case (Some live)
    then have d: "distinct live" using assms(2) by simp
    show ?thesis
    proof (cases "fn \<in> set live")
      case True
      then have "count_list live fn = 1" using d by (simp add: count_list_distinct)
      then show ?thesis using Some True by (simp add: once_def on_def set_add_def)
    next
      case False
      then have "count_list live fn = 0" by (simp add: count_list_0_iff)
      then show ?thesis using Some False by (simp add: once_def on_def set_add_def)
    qed
  qed
  have o: "\<forall>e'. e' \<noteq> event \<longrightarrow> \<not> subscribed e' fn (once event fn s)"
    using assms(1) by (auto simp: once_def on_def subscribed_def split: option.splits)
  have i: "invocations event fn (once event fn s) = invocations event fn s"
    by (simp add: once_def on_def invocations_def split: option.splits)
  from m c o i show ?thesis by (simp add: armed_def)
qed

text \<open>
  What \<^verbatim>\<open>once\<close> achieves when the function is used for one event only. Let \<open>fn\<close> be
  subscribed to no event other than \<open>event\<close> when \<^verbatim>\<open>once(event, fn)\<close> registers it. Then
  over any later sequence of \<^verbatim>\<open>emit\<close> calls, of this and of other events, \<open>fn\<close> is called
  exactly once if \<open>event\<close> is emitted at all (by its first \<^verbatim>\<open>emit\<close>) and never otherwise. In
  the state that \<^verbatim>\<open>emit(event)\<close> reaches before it calls any listener, \<open>fn\<close> is no longer
  subscribed, and no \<^verbatim>\<open>emit\<close> from that state on calls \<open>fn\<close>.
\<close>

lemma once_fires_on_first_emit_only:
  assumes "\<forall>e'. e' \<noteq> event \<longrightarrow> \<not> subscribed e' fn s"
    and "\<forall>live. listeners s event = Some live \<longrightarrow> distinct live"
  shows "invocations event fn (emit_seq es (once event fn s))
           = invocations event fn s + (if event \<in> set es then 1 else 0)
         \<and> (\<forall>snapshot. listeners (once event fn s) event = Some snapshot \<longrightarrow>
              \<not> subscribed event fn (detach_once event snapshot (once event fn s))
              \<and> invocations event fn (emit_seq es (detach_once event snapshot (once event fn s)))
                  = invocations event fn (detach_once event snapshot (once event fn s)))"
proof (intro conjI allI impI)
  note a = once_armed[OF assms]
  from emit_seq_armed[OF conjunct1[OF a], of es] a
  show "invocations event fn (emit_seq es (once event fn s))
           = invocations event fn s + (if event \<in> set es then 1 else 0)" by simp
  fix snapshot
  assume l: "listeners (once event fn s) event = Some snapshot"
  from detach_armed[OF conjunct1[OF a] l]
  have ab: "absent fn (detach_once event snapshot (once event fn s))" .
  from ab show "\<not> subscribed event fn (detach_once event snapshot (once event fn s))"
    by (simp add: absent_def)
  from emit_seq_absent[OF ab, where e'=event and es=es]
  show "invocations event fn (emit_seq es (detach_once event snapshot (once event fn s)))
             = invocations event fn (detach_once event snapshot (once event fn s))"
    by simp
qed

lemma once_fires_on_first_emit_only_example:
  "invocations ''a'' f0 (emit_seq [''b'', ''a'', ''a''] (once ''a'' f0 new_emitter)) = 1
   \<and> \<not> subscribed ''a'' f0 (detach_once ''a'' [f0] (once ''a'' f0 new_emitter))"
proof -
  have 1: "\<forall>e'. e' \<noteq> ''a'' \<longrightarrow> \<not> subscribed e' f0 new_emitter"
    by (simp add: subscribed_def new_emitter_def)
  have 2: "\<forall>live. listeners new_emitter ''a'' = Some live \<longrightarrow> distinct live"
    by (simp add: new_emitter_def)
  have 3: "listeners (once ''a'' f0 new_emitter) ''a'' = Some [f0]"
    by (simp add: once_def on_def new_emitter_def set_add_def)
  have 4: "invocations ''a'' f0 new_emitter = 0"
    by (simp add: invocations_def new_emitter_def)
  from once_fires_on_first_emit_only[OF 1 2, of "[''b'', ''a'', ''a'']"] 3 4
  show ?thesis by simp
qed

text \<open>
  Claim C7. \<^verbatim>\<open>once\<close> is documented as registering a listener that is removed after its
  first invocation, and the claim has the listener invoked on the first \<^verbatim>\<open>emit\<close> of its event
  and on no later one. The code does not keep to this when one function is registered with
  \<^verbatim>\<open>once\<close> for two events: the single-fire mark is one entry per function, the first \<^verbatim>\<open>emit\<close>
  of either event clears it, and the function stays subscribed to the other event for good.
  After \<^verbatim>\<open>once('a', f)\<close>, \<^verbatim>\<open>once('b', f)\<close> and \<^verbatim>\<open>emit('b')\<close>, two calls of \<^verbatim>\<open>emit('a')\<close> both
  call \<open>f\<close>, and \<open>f\<close> is still subscribed to \<^verbatim>\<open>'a'\<close> afterwards.
\<close>

theorem once_shared_listener_fires_again:
  "calls (emit_seq [''b'', ''a'', ''a''] (once ''b'' f0 (once ''a'' f0 new_emitter)))
     = [(''b'', f0), (''a'', f0), (''a'', f0)]
   \<and> invocations ''a'' f0 (emit_seq [''b'', ''a'', ''a''] (once ''b'' f0 (once ''a'' f0 new_emitter))) = 2
   \<and> subscribed ''a'' f0 (emit_seq [''b'', ''a'', ''a''] (once ''b'' f0 (once ''a'' f0 new_emitter)))"
proof -
  let ?s = "once ''b'' f0 (once ''a'' f0 new_emitter)"
  let ?s1 = "snd (emit ''b'' ?s)"
  have l1: "listeners ?s1 = [''a'' \<mapsto> [f0]]" "once_marks ?s1 = {}" "calls ?s1 = [(''b'', f0)]"
    by (auto simp: emit_live emit_marks emit_calls shared_once_state Let_def)
  let ?s2 = "snd (emit ''a'' ?s1)"
  have l2: "listeners ?s2 = [''a'' \<mapsto> [f0]]" "once_marks ?s2 = {}" "calls ?s2 = [(''b'', f0), (''a'', f0)]"
    by (auto simp: emit_live emit_marks emit_calls l1 Let_def)
  let ?s3 = "snd (emit ''a'' ?s2)"
  have l3: "listeners ?s3 = [''a'' \<mapsto> [f0]]" "calls ?s3 = [(''b'', f0), (''a'', f0), (''a'', f0)]"
    by (auto simp: emit_live emit_marks emit_calls l2 Let_def)
  have "emit_seq [''b'', ''a'', ''a''] ?s = ?s3" by simp
  then show ?thesis using l3 by (simp add: subscribed_def invocations_def)
qed

section \<open>Properties of the topological sort\<close>

lemma update_fresh:
  "k \<notin> fst ` set al \<Longrightarrow> AList.update k v al = al @ [(k, v)]"
  by (induction al) auto

lemma index_by_name_ok:
  "distinct (map name ps) \<Longrightarrow> \<forall>p \<in> set ps. m (name p) = None \<Longrightarrow>
   \<exists>m'. index_by_name ps m = Inr m'
        \<and> (\<forall>n. m' n = (case find (\<lambda>p. name p = n) ps of Some p \<Rightarrow> Some p | None \<Rightarrow> m n))"
proof (induction ps arbitrary: m)
  case Nil
  then show ?case by simp
next
  case (Cons p ps)
  let ?m = "m(name p \<mapsto> p)"
  have d: "distinct (map name ps)" and np: "\<forall>q \<in> set ps. name q \<noteq> name p"
    using Cons.prems(1) by (auto simp: image_iff)
  have "\<forall>q \<in> set ps. ?m (name q) = None" using Cons.prems(2) np by auto
  from Cons.IH[OF d this] obtain m' where m': "index_by_name ps ?m = Inr m'"
    "\<forall>n. m' n = (case find (\<lambda>p. name p = n) ps of Some p \<Rightarrow> Some p | None \<Rightarrow> ?m n)"
    by blast
  have f: "find (\<lambda>q. name q = name p) ps = None" using np by (auto simp: find_None_iff)
  have "\<forall>n. m' n = (case find (\<lambda>q. name q = n) (p # ps) of Some q \<Rightarrow> Some q | None \<Rightarrow> m n)"
    using m'(2) f by (auto split: option.splits)
  then show ?case using m'(1) Cons.prems(2) by simp
qed

lemma index_by_name_distinct:
  "index_by_name ps m = Inr m' \<Longrightarrow> distinct (map name ps) \<and> (\<forall>p \<in> set ps. m (name p) = None)"
proof (induction ps arbitrary: m)
  case Nil
  then show ?case by simp
next
  case (Cons p ps)
  from Cons.prems have n: "m (name p) = None" and r: "index_by_name ps (m(name p \<mapsto> p)) = Inr m'"
    by (auto split: if_splits)
  from Cons.IH[OF r] have "distinct (map name ps)" "\<forall>q \<in> set ps. (m(name p \<mapsto> p)) (name q) = None"
    by auto
  then show ?case using n by (auto split: if_splits)
qed

lemma index_by_name_error:
  "index_by_name ps m = Inl e \<Longrightarrow> \<exists>n. e = DuplicateProviderName n"
  by (induction ps arbitrary: m) (auto split: if_splits)

lemma find_name:
  "distinct (map name ps) \<Longrightarrow>
   (find (\<lambda>p. name p = n) ps = Some p) = (p \<in> set ps \<and> name p = n)"
proof (induction ps)
  case Nil
  then show ?case by simp
next
  case (Cons a ps)
  then show ?case by (auto simp: image_iff)
qed

lemma init_graph_gen:
  "distinct (map name ps) \<Longrightarrow> \<forall>p \<in> set ps. name p \<notin> fst ` set al \<Longrightarrow>
   fold (\<lambda>p g. (AList.update (name p) 0 (fst g), (snd g)(name p \<mapsto> []))) ps
        (al :: degrees, dm :: string \<rightharpoonup> string list)
     = (al @ map (\<lambda>p. (name p, 0)) ps,
        (\<lambda>n. if n \<in> name ` set ps then Some [] else dm n))"
proof (induction ps arbitrary: al dm)
  case Nil
  then show ?case by simp
next
  case (Cons p ps)
  let ?step = "\<lambda>p g. (AList.update (name p) (0::int) (fst g), (snd g)(name p \<mapsto> ([]::string list)))"
  have u: "AList.update (name p) 0 al = al @ [(name p, 0)]"
    using Cons.prems(2) by (simp add: update_fresh)
  have d: "distinct (map name ps)" and np: "\<forall>q \<in> set ps. name q \<noteq> name p"
    using Cons.prems(1) by (auto simp: image_iff)
  have f: "\<forall>q \<in> set ps. name q \<notin> fst ` set (al @ [(name p, 0)])"
    using Cons.prems(2) np by auto
  have e: "(\<lambda>n. if n \<in> name ` set ps then Some [] else (dm(name p \<mapsto> [])) n)
        = (\<lambda>n. if n \<in> name ` set (p # ps) then Some [] else dm n)"
    by (rule ext) auto
  have "fold ?step (p # ps) (al, dm) = fold ?step ps (al @ [(name p, 0)], dm(name p \<mapsto> []))"
    using u by simp
  also have "\<dots> = ((al @ [(name p, 0)]) @ map (\<lambda>p. (name p, 0)) ps,
        (\<lambda>n. if n \<in> name ` set ps then Some [] else (dm(name p \<mapsto> [])) n))"
    by (rule Cons.IH[OF d f])
  also have "\<dots> = (al @ map (\<lambda>p. (name p, 0)) (p # ps),
        (\<lambda>n. if n \<in> name ` set (p # ps) then Some [] else dm n))"
    by (simp only: e) simp
  finally show ?case .
qed

lemma init_graph_eq:
  "distinct (map name ps) \<Longrightarrow>
   init_graph ps = (map (\<lambda>p. (name p, 0)) ps, (\<lambda>n. if n \<in> name ` set ps then Some [] else None))"
  unfolding init_graph_def using init_graph_gen[of ps "[]" Map.empty] by simp

lemma dependents_of_Cons:
  "dependents_of (p # ps) d = replicate (count_list (dependencies p) d) (name p) @ dependents_of ps d"
  by (simp add: dependents_of_def)

lemma add_edges_ok:
  "\<forall>d \<in> set deps. byName d \<noteq> None \<and> dm d \<noteq> None \<Longrightarrow> map_of deg pname = Some v \<Longrightarrow>
   \<exists>deg'. add_edges byName pname deps (deg, dm)
            = Inr (deg', \<lambda>d. map_option (\<lambda>ds. ds @ replicate (count_list deps d) pname) (dm d))
        \<and> map fst deg' = map fst deg
        \<and> map_of deg' = (map_of deg)(pname \<mapsto> v + int (length deps))"
proof (induction deps arbitrary: deg dm v)
  case Nil
  have "(\<lambda>d. map_option (\<lambda>ds. ds @ replicate (count_list [] d) pname) (dm d)) = dm"
    by (rule ext) (simp add: option.map_ident)
  moreover have "(map_of deg)(pname \<mapsto> v) = map_of deg"
    using Nil.prems(2) by (rule_tac ext) simp
  ultimately show ?case by simp
next
  case (Cons dep deps)
  from Cons.prems(1) obtain ds bp where ds: "dm dep = Some ds" and bn: "byName dep = Some bp" by auto
  let ?deg1 = "AList.update pname (v + 1) deg"
  let ?dm1 = "dm(dep \<mapsto> ds @ [pname])"
  have k: "pname \<in> set (map fst deg)"
    using Cons.prems(2) by (metis map_of_eq_None_iff option.distinct(1) set_map)
  have 1: "\<forall>d \<in> set deps. byName d \<noteq> None \<and> ?dm1 d \<noteq> None" using Cons.prems(1) by auto
  have 2: "map_of ?deg1 pname = Some (v + 1)" by (simp add: update_conv')
  from Cons.IH[OF 1 2] obtain deg' where r:
    "add_edges byName pname deps (?deg1, ?dm1)
       = Inr (deg', \<lambda>d. map_option (\<lambda>ds. ds @ replicate (count_list deps d) pname) (?dm1 d))"
    "map fst deg' = map fst ?deg1"
    "map_of deg' = (map_of ?deg1)(pname \<mapsto> v + 1 + int (length deps))"
    by blast
  have a: "add_edges byName pname (dep # deps) (deg, dm) = add_edges byName pname deps (?deg1, ?dm1)"
    using ds bn Cons.prems(2) by simp
  have b: "(\<lambda>d. map_option (\<lambda>ds. ds @ replicate (count_list deps d) pname) (?dm1 d))
         = (\<lambda>d. map_option (\<lambda>ds. ds @ replicate (count_list (dep # deps) d) pname) (dm d))"
    using ds by (rule_tac ext) (simp add: replicate_app_Cons_same)
  have c: "map fst ?deg1 = map fst deg" using k by (simp add: update_keys)
  have d: "(map_of ?deg1)(pname \<mapsto> v + 1 + int (length deps))
         = (map_of deg)(pname \<mapsto> v + int (length (dep # deps)))"
    by (rule ext) (simp add: update_conv')
  have "add_edges byName pname (dep # deps) (deg, dm)
          = Inr (deg', \<lambda>d. map_option (\<lambda>ds. ds @ replicate (count_list (dep # deps) d) pname) (dm d))"
    by (simp only: a r(1) b)
  moreover have "map fst deg' = map fst deg" by (simp only: r(2) c)
  moreover have "map_of deg' = (map_of deg)(pname \<mapsto> v + int (length (dep # deps)))"
    by (simp only: r(3) d)
  ultimately show ?case by blast
qed

lemma add_edges_dom:
  "add_edges byName pname deps (deg, dm) = Inr g \<Longrightarrow> dm d \<noteq> None \<Longrightarrow> snd g d \<noteq> None"
proof (induction deps arbitrary: deg dm)
  case Nil
  then show ?case by auto
next
  case (Cons dep deps)
  from Cons.prems(1) obtain ds where ds: "dm dep = Some ds"
    by (auto split: if_splits option.splits simp: Let_def)
  let ?deg1 = "AList.update pname ((case map_of deg pname of None \<Rightarrow> 0 | Some d \<Rightarrow> d) + 1) deg"
  from Cons.prems(1) ds have r: "add_edges byName pname deps (?deg1, dm(dep \<mapsto> ds @ [pname])) = Inr g"
    by (simp add: Let_def split: if_splits)
  have "(dm(dep \<mapsto> ds @ [pname])) d \<noteq> None" using Cons.prems(2) by simp
  from Cons.IH[OF r this] show ?case .
qed

lemma add_edges_cases:
  "\<forall>d. byName d \<noteq> None \<longrightarrow> dm d \<noteq> None \<Longrightarrow>
   (\<exists>g. add_edges byName pname deps (deg, dm) = Inr g \<and> (\<forall>d \<in> set deps. byName d \<noteq> None))
   \<or> (\<exists>d \<in> set deps. byName d = None
         \<and> add_edges byName pname deps (deg, dm) = Inl (UnknownDependency pname d))"
proof (induction deps arbitrary: deg dm)
  case Nil
  then show ?case by simp
next
  case (Cons dep deps)
  show ?case
  proof (cases "byName dep")
    case None
    then show ?thesis by simp
  next
    case (Some p)
    with Cons.prems obtain ds where ds: "dm dep = Some ds" by auto
    let ?deg1 = "AList.update pname ((case map_of deg pname of None \<Rightarrow> 0 | Some d \<Rightarrow> d) + 1) deg"
    let ?dm1 = "dm(dep \<mapsto> ds @ [pname])"
    have st: "add_edges byName pname (dep # deps) (deg, dm) = add_edges byName pname deps (?deg1, ?dm1)"
      using Some ds by (simp add: Let_def)
    have "\<forall>d. byName d \<noteq> None \<longrightarrow> ?dm1 d \<noteq> None"
      using Cons.prems by auto
    from Cons.IH[OF this, of ?deg1]
    show ?thesis
    proof
      assume "\<exists>g. add_edges byName pname deps (?deg1, ?dm1) = Inr g \<and> (\<forall>d\<in>set deps. byName d \<noteq> None)"
      then show ?thesis using st Some by auto
    next
      assume "\<exists>d\<in>set deps. byName d = None
                \<and> add_edges byName pname deps (?deg1, ?dm1) = Inl (UnknownDependency pname d)"
      then show ?thesis using st by auto
    qed
  qed
qed

lemma build_graph_ok:
  "\<forall>p \<in> set qs. \<forall>d \<in> set (dependencies p). byName d \<noteq> None \<and> dm d \<noteq> None \<Longrightarrow>
   \<forall>p \<in> set qs. map_of deg (name p) = Some 0 \<Longrightarrow> distinct (map name qs) \<Longrightarrow>
   \<exists>deg'. build_graph byName qs (deg, dm)
            = Inr (deg', \<lambda>d. map_option (\<lambda>ds. ds @ dependents_of qs d) (dm d))
        \<and> map fst deg' = map fst deg
        \<and> (\<forall>p \<in> set qs. map_of deg' (name p) = Some (int (length (dependencies p))))
        \<and> (\<forall>n. n \<notin> name ` set qs \<longrightarrow> map_of deg' n = map_of deg n)"
proof (induction qs arbitrary: deg dm)
  case Nil
  have "(\<lambda>d. map_option (\<lambda>ds. ds @ dependents_of [] d) (dm d)) = dm"
    by (rule ext) (simp add: dependents_of_def option.map_ident)
  then show ?case by simp
next
  case (Cons q qs)
  let ?dm1 = "\<lambda>d. map_option (\<lambda>ds. ds @ replicate (count_list (dependencies q) d) (name q)) (dm d)"
  have q0: "map_of deg (name q) = Some 0" using Cons.prems(2) by simp
  have qd: "\<forall>d \<in> set (dependencies q). byName d \<noteq> None \<and> dm d \<noteq> None"
    using Cons.prems(1) by simp
  from add_edges_ok[OF qd q0] obtain deg1 where s1:
    "add_edges byName (name q) (dependencies q) (deg, dm) = Inr (deg1, ?dm1)"
    "map fst deg1 = map fst deg"
    "map_of deg1 = (map_of deg)(name q \<mapsto> 0 + int (length (dependencies q)))"
    by blast
  have np: "\<forall>p \<in> set qs. name p \<noteq> name q" and dq: "distinct (map name qs)"
    using Cons.prems(3) by (auto simp: image_iff)
  have 1: "\<forall>p \<in> set qs. \<forall>d \<in> set (dependencies p). byName d \<noteq> None \<and> ?dm1 d \<noteq> None"
    using Cons.prems(1) by simp
  have 2: "\<forall>p \<in> set qs. map_of deg1 (name p) = Some 0"
    using Cons.prems(2) np by (simp add: s1(3))
  from Cons.IH[OF 1 2 dq] obtain deg' where s2:
    "build_graph byName qs (deg1, ?dm1)
       = Inr (deg', \<lambda>d. map_option (\<lambda>ds. ds @ dependents_of qs d) (?dm1 d))"
    "map fst deg' = map fst deg1"
    "\<forall>p \<in> set qs. map_of deg' (name p) = Some (int (length (dependencies p)))"
    "\<forall>n. n \<notin> name ` set qs \<longrightarrow> map_of deg' n = map_of deg1 n"
    by blast
  have e: "(\<lambda>d. map_option (\<lambda>ds. ds @ dependents_of qs d) (?dm1 d))
         = (\<lambda>d. map_option (\<lambda>ds. ds @ dependents_of (q # qs) d) (dm d))"
    by (rule ext) (simp add: option.map_comp comp_def dependents_of_Cons)
  have nq: "name q \<notin> name ` set qs" using np by auto
  have 3: "map_of deg' (name q) = Some (int (length (dependencies q)))"
    using s2(4) nq by (simp add: s1(3))
  have 4: "\<forall>n. n \<notin> name ` set (q # qs) \<longrightarrow> map_of deg' n = map_of deg n"
    using s2(4) by (simp add: s1(3))
  have "build_graph byName (q # qs) (deg, dm)
          = Inr (deg', \<lambda>d. map_option (\<lambda>ds. ds @ dependents_of (q # qs) d) (dm d))"
    using s1(1) s2(1) by (simp only: build_graph.simps sum.case e)
  moreover have "map fst deg' = map fst deg" by (simp only: s2(2) s1(2))
  moreover have "\<forall>p \<in> set (q # qs). map_of deg' (name p) = Some (int (length (dependencies p)))"
    using 3 s2(3) by simp
  ultimately show ?case using 4 by blast
qed

lemma build_graph_cases:
  "\<forall>d. byName d \<noteq> None \<longrightarrow> dm d \<noteq> None \<Longrightarrow>
   (\<exists>g. build_graph byName qs (deg, dm) = Inr g
        \<and> (\<forall>p \<in> set qs. \<forall>d \<in> set (dependencies p). byName d \<noteq> None))
   \<or> (\<exists>p \<in> set qs. \<exists>d \<in> set (dependencies p). byName d = None
         \<and> build_graph byName qs (deg, dm) = Inl (UnknownDependency (name p) d))"
proof (induction qs arbitrary: deg dm)
  case Nil
  then show ?case by simp
next
  case (Cons q qs)
  from add_edges_cases[OF Cons.prems, of "name q" "dependencies q" deg]
  show ?case
  proof
    assume "\<exists>g. add_edges byName (name q) (dependencies q) (deg, dm) = Inr g
                \<and> (\<forall>d \<in> set (dependencies q). byName d \<noteq> None)"
    then obtain g where g: "add_edges byName (name q) (dependencies q) (deg, dm) = Inr g"
      and k: "\<forall>d \<in> set (dependencies q). byName d \<noteq> None" by blast
    have dom: "\<forall>d. byName d \<noteq> None \<longrightarrow> snd g d \<noteq> None"
      using add_edges_dom[OF g] Cons.prems by blast
    have st: "build_graph byName (q # qs) (deg, dm) = build_graph byName qs (fst g, snd g)"
      using g by simp
    from Cons.IH[OF dom, of "fst g"] show ?thesis
    proof
      assume "\<exists>g'. build_graph byName qs (fst g, snd g) = Inr g'
                \<and> (\<forall>p\<in>set qs. \<forall>d\<in>set (dependencies p). byName d \<noteq> None)"
      then show ?thesis using st k by auto
    next
      assume "\<exists>p\<in>set qs. \<exists>d\<in>set (dependencies p). byName d = None
                \<and> build_graph byName qs (fst g, snd g) = Inl (UnknownDependency (name p) d)"
      then show ?thesis using st by auto
    qed
  next
    assume "\<exists>d \<in> set (dependencies q). byName d = None
              \<and> add_edges byName (name q) (dependencies q) (deg, dm) = Inl (UnknownDependency (name q) d)"
    then show ?thesis by auto
  qed
qed

lemma release_char:
  "\<forall>n \<in> set ds. \<exists>v. map_of deg n = Some v \<and> int (count_list ds n) \<le> v \<Longrightarrow>
   \<exists>deg' new. release ds (deg, q) = Some (deg', q @ new)
      \<and> map fst deg' = map fst deg
      \<and> (\<forall>n. map_of deg' n = map_option (\<lambda>v. v - int (count_list ds n)) (map_of deg n))
      \<and> distinct new
      \<and> set new = {n \<in> set ds. map_of deg n = Some (int (count_list ds n))}"
proof (induction ds arbitrary: deg q)
  case Nil
  have "\<forall>n. map_of deg n = map_option (\<lambda>v. v - int (count_list [] n)) (map_of deg n)"
    by (simp add: option.map_ident)
  then show ?case by simp
next
  case (Cons d ds)
  from Cons.prems obtain v where v: "map_of deg d = Some v" "int (count_list ds d) + 1 \<le> v"
    by auto
  let ?deg1 = "AList.update d (v - 1) deg"
  let ?q1 = "if v - 1 = 0 then q @ [d] else q"
  have k: "d \<in> set (map fst deg)"
    using v(1) by (metis map_of_eq_None_iff option.distinct(1) set_map)
  have m1: "map_of ?deg1 = (map_of deg)(d \<mapsto> v - 1)" by (simp add: update_conv')
  have pre: "\<forall>n \<in> set ds. \<exists>w. map_of ?deg1 n = Some w \<and> int (count_list ds n) \<le> w"
  proof
    fix n assume n: "n \<in> set ds"
    show "\<exists>w. map_of ?deg1 n = Some w \<and> int (count_list ds n) \<le> w"
    proof (cases "n = d")
      case True
      then show ?thesis using v(2) m1 by simp
    next
      case False
      then show ?thesis using Cons.prems n m1 by auto
    qed
  qed
  from Cons.IH[OF pre, of ?q1] obtain deg' new where r:
    "release ds (?deg1, ?q1) = Some (deg', ?q1 @ new)"
    "map fst deg' = map fst ?deg1"
    "\<forall>n. map_of deg' n = map_option (\<lambda>w. w - int (count_list ds n)) (map_of ?deg1 n)"
    "distinct new"
    "set new = {n \<in> set ds. map_of ?deg1 n = Some (int (count_list ds n))}"
    by blast
  let ?new = "(if v - 1 = 0 then [d] else []) @ new"
  have st: "release (d # ds) (deg, q) = release ds (?deg1, ?q1)"
    using v(1) by (simp add: Let_def)
  have 1: "release (d # ds) (deg, q) = Some (deg', q @ ?new)"
    using st r(1) by simp
  have 2: "map fst deg' = map fst deg" using r(2) k by (simp add: update_keys)
  have 3: "\<forall>n. map_of deg' n = map_option (\<lambda>w. w - int (count_list (d # ds) n)) (map_of deg n)"
  proof
    fix n
    show "map_of deg' n = map_option (\<lambda>w. w - int (count_list (d # ds) n)) (map_of deg n)"
      using r(3)[rule_format, of n] m1 v(1) by (cases "n = d") auto
  qed
  have dn: "v - 1 = 0 \<Longrightarrow> d \<notin> set new"
  proof
    assume z: "v - 1 = 0" and "d \<in> set new"
    then have "d \<in> set ds" "map_of ?deg1 d = Some (int (count_list ds d))" using r(5) by auto
    then have "int (count_list ds d) = 0" using m1 z by simp
    then have "d \<notin> set ds" by (simp add: count_list_0_iff)
    with \<open>d \<in> set ds\<close> show False by simp
  qed
  have 4: "distinct ?new" using r(4) dn by simp
  have 5: "set ?new = {n \<in> set (d # ds). map_of deg n = Some (int (count_list (d # ds) n))}"
  proof (intro set_eqI iffI)
    fix n assume "n \<in> set ?new"
    then consider (a) "v - 1 = 0" "n = d" | (b) "n \<in> set new" by (auto split: if_splits)
    then show "n \<in> {n \<in> set (d # ds). map_of deg n = Some (int (count_list (d # ds) n))}"
    proof cases
      case a
      then have "int (count_list ds d) = 0" using v(2) by simp
      then show ?thesis using a v(1) by simp
    next
      case b
      then have b': "n \<in> set ds" "map_of ?deg1 n = Some (int (count_list ds n))" using r(5) by auto
      show ?thesis
      proof (cases "n = d")
        case True
        then show ?thesis using b' m1 v(1) by simp
      next
        case False
        then show ?thesis using b' m1 by simp
      qed
    qed
  next
    fix n assume "n \<in> {n \<in> set (d # ds). map_of deg n = Some (int (count_list (d # ds) n))}"
    then have n: "n \<in> set (d # ds)" "map_of deg n = Some (int (count_list (d # ds) n))" by auto
    show "n \<in> set ?new"
    proof (cases "n = d")
      case True
      then have vv: "v = int (count_list ds d) + 1" using n(2) v(1) by simp
      show ?thesis
      proof (cases "d \<in> set ds")
        case True
        have "map_of ?deg1 d = Some (int (count_list ds d))" using m1 vv by simp
        then have "d \<in> set new" using r(5) True by simp
        then show ?thesis using \<open>n = d\<close> by simp
      next
        case False
        then have "count_list ds d = 0" by simp
        then have "v - 1 = 0" using vv by simp
        then show ?thesis using \<open>n = d\<close> by simp
      qed
    next
      case False
      then have "n \<in> set ds" "map_of ?deg1 n = Some (int (count_list ds n))"
        using n m1 by auto
      then have "n \<in> set new" using r(5) by simp
      then show ?thesis by simp
    qed
  qed
  from 1 2 3 4 5 show ?case by blast
qed

lemma count_list_replicate:
  "count_list (replicate k x) y = (if x = y then k else 0)"
  by (induction k) auto

lemma dependents_of_set:
  "set (dependents_of ps d) \<subseteq> name ` set ps"
  by (auto simp: dependents_of_def)

lemma dependents_of_count:
  "distinct (map name ps) \<Longrightarrow> p \<in> set ps \<Longrightarrow>
   count_list (dependents_of ps d) (name p) = count_list (dependencies p) d"
proof (induction ps)
  case Nil
  then show ?case by simp
next
  case (Cons a ps)
  have z: "q \<in> set ps \<Longrightarrow> name q \<noteq> name a" for q using Cons.prems(1) by (auto simp: image_iff)
  show ?case
  proof (cases "p = a")
    case True
    have "name a \<notin> set (dependents_of ps d)"
    proof
      assume "name a \<in> set (dependents_of ps d)"
      then have "name a \<in> name ` set ps" using dependents_of_set[of ps d] by blast
      then obtain q where "q \<in> set ps" "name q = name a" by (auto simp: image_iff)
      with z show False by blast
    qed
    then show ?thesis using True by (simp add: dependents_of_Cons count_list_replicate)
  next
    case False
    then have "p \<in> set ps" using Cons.prems(2) by simp
    then show ?thesis using Cons.IH Cons.prems(1) z[of p]
      by (simp add: dependents_of_Cons count_list_replicate)
  qed
qed

lemma filter_insert_count:
  "x \<notin> S \<Longrightarrow>
   length (filter (\<lambda>d. d \<notin> insert x S) ds) + count_list ds x = length (filter (\<lambda>d. d \<notin> S) ds)"
  by (induction ds) auto

lemma unmet_insert:
  "x \<notin> S \<Longrightarrow> unmet (insert x S) p + count_list (dependencies p) x = unmet S p"
  unfolding unmet_def by (rule filter_insert_count)

lemma unmet_zero: "unmet S p = 0 \<longleftrightarrow> set (dependencies p) \<subseteq> S"
  by (auto simp: unmet_def filter_empty_conv)

lemma deps_before_snoc:
  "deps_before out \<Longrightarrow> set (dependencies p) \<subseteq> name ` set out \<Longrightarrow> deps_before (out @ [p])"
  unfolding deps_before_def
proof (intro allI impI ballI)
  fix i d
  assume a: "\<forall>i<length out. \<forall>d\<in>set (dependencies (out ! i)). \<exists>j<i. name (out ! j) = d"
    and b: "set (dependencies p) \<subseteq> name ` set out"
    and i: "i < length (out @ [p])" and d: "d \<in> set (dependencies ((out @ [p]) ! i))"
  show "\<exists>j<i. name ((out @ [p]) ! j) = d"
  proof (cases "i < length out")
    case True
    with a d obtain j where "j < i" "name (out ! j) = d" by (auto simp: nth_append)
    then show ?thesis using True by (auto simp: nth_append intro!: exI[of _ j])
  next
    case False
    then have il: "i = length out" using i by simp
    then have "d \<in> name ` set out" using d b by auto
    then obtain j where "j < length out" "name (out ! j) = d"
      by (auto simp: in_set_conv_nth)
    then show ?thesis using il by (auto simp: nth_append intro!: exI[of _ j])
  qed
qed

lemma kahn_step:
  assumes g: "graph_of ps byName dm" and inv: "kahn_inv ps (x # rest) deg srt"
  shows "\<exists>p ds deg' new. byName x = Some p \<and> dm x = Some ds
           \<and> release ds (deg, rest) = Some (deg', rest @ new)
           \<and> kahn_inv ps (rest @ new) deg' (srt @ [p])"
proof -
  let ?S = "name ` set srt"
  from g have dn: "distinct (map name ps)"
    and bn: "\<And>n p. (byName n = Some p) = (p \<in> set ps \<and> name p = n)"
    and dmd: "\<And>d. d \<in> name ` set ps \<Longrightarrow> dm d = Some (dependents_of ps d)"
    by (auto simp: graph_of_def)
  from inv have i0: "set srt \<subseteq> set ps" and i1: "distinct (map name srt @ x # rest)"
    and i2: "set (x # rest) \<subseteq> name ` set ps" and i3: "map fst deg = map name ps"
    and i4: "\<And>p. p \<in> set ps \<Longrightarrow> map_of deg (name p) = Some (int (unmet ?S p))"
    and i5: "\<And>p. p \<in> set ps \<Longrightarrow> (name p \<in> ?S \<union> set (x # rest)) = (unmet ?S p = 0)"
    and i6: "deps_before srt"
    by (auto simp: kahn_inv_def)
  from i2 obtain p where p: "p \<in> set ps" "name p = x" by (auto simp: image_iff)
  then have bx: "byName x = Some p" using bn by simp
  let ?ds = "dependents_of ps x"
  have dx: "dm x = Some ?ds" using dmd i2 by simp
  have xS: "x \<notin> ?S" using i1 by auto
  have cnt: "\<And>q. q \<in> set ps \<Longrightarrow> count_list ?ds (name q) = count_list (dependencies q) x"
    using dependents_of_count[OF dn] by simp
  have um: "\<And>q. unmet (insert x ?S) q + count_list (dependencies q) x = unmet ?S q"
    using unmet_insert[OF xS] by simp
  have pre: "\<forall>n \<in> set ?ds. \<exists>v. map_of deg n = Some v \<and> int (count_list ?ds n) \<le> v"
  proof
    fix n assume "n \<in> set ?ds"
    then have "n \<in> name ` set ps" using dependents_of_set by blast
    then obtain q where q: "q \<in> set ps" "name q = n" by (auto simp: image_iff)
    have "count_list ?ds n \<le> unmet ?S q" using cnt[OF q(1)] um[of q] q(2) by simp
    then show "\<exists>v. map_of deg n = Some v \<and> int (count_list ?ds n) \<le> v"
      using i4[OF q(1)] q(2) by simp
  qed
  from release_char[OF pre, of rest] obtain deg' new where r:
    "release ?ds (deg, rest) = Some (deg', rest @ new)"
    "map fst deg' = map fst deg"
    "\<And>n. map_of deg' n = map_option (\<lambda>v. v - int (count_list ?ds n)) (map_of deg n)"
    "distinct new"
    "set new = {n \<in> set ?ds. map_of deg n = Some (int (count_list ?ds n))}"
    by blast
  have S': "name ` set (srt @ [p]) = insert x ?S" using p(2) by auto
  have newchar: "\<And>q. q \<in> set ps \<Longrightarrow>
      (name q \<in> set new) = (0 < count_list (dependencies q) x \<and> unmet (insert x ?S) q = 0)"
  proof -
    fix q assume q: "q \<in> set ps"
    have a: "(name q \<in> set ?ds) = (0 < count_list (dependencies q) x)"
      using cnt[OF q] count_list_0_iff[of ?ds "name q"] by auto
    have b: "(map_of deg (name q) = Some (int (count_list ?ds (name q))))
              = (unmet (insert x ?S) q = 0)"
      using i4[OF q] cnt[OF q] um[of q] by auto
    show "(name q \<in> set new) = (0 < count_list (dependencies q) x \<and> unmet (insert x ?S) q = 0)"
      using r(5) a b by simp
  qed
  have newsub: "set new \<subseteq> name ` set ps" using r(5) dependents_of_set by blast
  have newfresh: "set new \<inter> (?S \<union> set (x # rest)) = {}"
  proof (rule ccontr)
    assume "set new \<inter> (?S \<union> set (x # rest)) \<noteq> {}"
    then obtain n where n: "n \<in> set new" "n \<in> ?S \<union> set (x # rest)" by auto
    from n(1) newsub obtain q where q: "q \<in> set ps" "name q = n" by (auto simp: image_iff)
    from n(1) q newchar[OF q(1)] have c: "0 < count_list (dependencies q) x" by simp
    from n(2) q i5[OF q(1)] have "unmet ?S q = 0" by simp
    with um[of q] c show False by simp
  qed
  have n1: "set (srt @ [p]) \<subseteq> set ps" using i0 p(1) by simp
  have n2: "distinct (map name (srt @ [p]) @ rest @ new)"
    using i1 r(4) newfresh p(2) by auto
  have n3: "set (rest @ new) \<subseteq> name ` set ps" using i2 newsub by simp
  have n4: "map fst deg' = map name ps" using r(2) i3 by simp
  have n5: "\<forall>q \<in> set ps. map_of deg' (name q) = Some (int (unmet (name ` set (srt @ [p])) q))"
  proof
    fix q assume q: "q \<in> set ps"
    have "map_of deg' (name q) = Some (int (unmet ?S q) - int (count_list ?ds (name q)))"
      using r(3)[of "name q"] i4[OF q] by simp
    also have "\<dots> = Some (int (unmet (insert x ?S) q))"
      using cnt[OF q] um[of q] by simp
    finally show "map_of deg' (name q) = Some (int (unmet (name ` set (srt @ [p])) q))"
      by (simp only: S')
  qed
  have n6: "\<forall>q \<in> set ps. (name q \<in> name ` set (srt @ [p]) \<union> set (rest @ new))
                = (unmet (name ` set (srt @ [p])) q = 0)"
  proof
    fix q assume q: "q \<in> set ps"
    have old: "(name q \<in> ?S \<union> set (x # rest)) = (unmet ?S q = 0)" by (rule i5[OF q])
    have "(name q \<in> insert x ?S \<union> set (rest @ new)) = (unmet (insert x ?S) q = 0)"
    proof
      assume "name q \<in> insert x ?S \<union> set (rest @ new)"
      then consider (a) "name q \<in> ?S \<union> set (x # rest)" | (b) "name q \<in> set new" by auto
      then show "unmet (insert x ?S) q = 0"
      proof cases
        case a
        with old um[of q] show ?thesis by simp
      next
        case b
        with newchar[OF q] show ?thesis by simp
      qed
    next
      assume z: "unmet (insert x ?S) q = 0"
      show "name q \<in> insert x ?S \<union> set (rest @ new)"
      proof (cases "count_list (dependencies q) x = 0")
        case True
        with z um[of q] have "unmet ?S q = 0" by simp
        with old show ?thesis by auto
      next
        case False
        with z newchar[OF q] show ?thesis by simp
      qed
    qed
    then show "(name q \<in> name ` set (srt @ [p]) \<union> set (rest @ new))
                = (unmet (name ` set (srt @ [p])) q = 0)"
      by (simp only: S')
  qed
  have "unmet ?S p = 0" using i5[OF p(1)] p(2) by simp
  then have "set (dependencies p) \<subseteq> ?S" by (simp add: unmet_zero)
  from deps_before_snoc[OF i6 this] have n7: "deps_before (srt @ [p])" .
  have "kahn_inv ps (rest @ new) deg' (srt @ [p])"
    unfolding kahn_inv_def using n1 n2 n3 n4 n5 n6 n7 by blast
  with bx dx r(1) show ?thesis by blast
qed

lemma kahn_total:
  "graph_of ps byName dm \<Longrightarrow> kahn_inv ps queue deg srt \<Longrightarrow>
   \<exists>out deg'. kahn byName dm queue deg srt = Inr out \<and> kahn_inv ps [] deg' out"
proof (induction byName dm queue deg srt rule: kahn.induct)
  case (1 byName dependents queue inDegree srt)
  show ?case
  proof (cases queue)
    case Nil
    then have "kahn byName dependents queue inDegree srt = Inr srt"
      by (subst kahn.simps) simp
    then show ?thesis using "1.prems"(2) Nil by blast
  next
    case (Cons x rest)
    from kahn_step[OF "1.prems"(1) "1.prems"(2)[unfolded Cons]]
    obtain p ds deg' new where s: "byName x = Some p" "dependents x = Some ds"
      "release ds (inDegree, rest) = Some (deg', rest @ new)"
      "kahn_inv ps (rest @ new) deg' (srt @ [p])" by blast
    have "kahn byName dependents queue inDegree srt
            = kahn byName dependents (rest @ new) deg' (srt @ [p])"
      by (subst kahn.simps) (simp add: Cons s)
    moreover from "1.IH"[OF Cons s(1) s(2) s(3)] "1.prems"(1) s(4)
    have "\<exists>out deg''. kahn byName dependents (rest @ new) deg' (srt @ [p]) = Inr out
            \<and> kahn_inv ps [] deg'' out" by simp
    ultimately show ?thesis by simp
  qed
qed

lemma dep_rel_iff:
  "((a, d) \<in> dep_rel ps) = (\<exists>p \<in> set ps. name p = a \<and> d \<in> set (dependencies p))"
  by (auto simp: dep_rel_def)

lemma map_of_zero:
  "p \<in> set ps \<Longrightarrow> map_of (map (\<lambda>p. (name p, 0::int)) ps) (name p) = Some 0"
  by (induction ps) auto

lemma name_inj:
  "distinct (map name ps) \<Longrightarrow> p \<in> set ps \<Longrightarrow> q \<in> set ps \<Longrightarrow> name p = name q \<Longrightarrow> p = q"
  by (meson distinct_map inj_onD)

lemma sort_setup:
  assumes dn: "distinct (map name ps)" and kd: "known_deps ps"
  shows "\<exists>byName g. index_by_name ps Map.empty = Inr byName
           \<and> build_graph byName ps (init_graph ps) = Inr g
           \<and> graph_of ps byName (snd g)
           \<and> kahn_inv ps (initial_queue (fst g)) (fst g) []"
proof -
  from index_by_name_ok[OF dn, of Map.empty] obtain byName where
    b1: "index_by_name ps Map.empty = Inr byName"
    and b2: "\<And>n. byName n = (case find (\<lambda>p. name p = n) ps of Some p \<Rightarrow> Some p | None \<Rightarrow> None)"
    by auto
  have b2': "byName n = find (\<lambda>p. name p = n) ps" for n
    using b2[of n] by (cases "find (\<lambda>p. name p = n) ps") simp_all
  have b3: "\<And>n p. (byName n = Some p) = (p \<in> set ps \<and> name p = n)"
    by (simp only: b2' find_name[OF dn])
  let ?deg0 = "map (\<lambda>p. (name p, 0::int)) ps"
  let ?dm0 = "\<lambda>n. if n \<in> name ` set ps then Some ([]::string list) else None"
  have ig: "init_graph ps = (?deg0, ?dm0)" using init_graph_eq[OF dn] .
  have c1: "\<forall>p \<in> set ps. \<forall>d \<in> set (dependencies p). byName d \<noteq> None \<and> ?dm0 d \<noteq> None"
  proof (intro ballI)
    fix p d assume "p \<in> set ps" "d \<in> set (dependencies p)"
    then have "d \<in> name ` set ps" using kd by (auto simp: known_deps_def)
    then obtain q where "q \<in> set ps" "name q = d" by (auto simp: image_iff)
    then have "byName d = Some q" using b3 by simp
    then show "byName d \<noteq> None \<and> ?dm0 d \<noteq> None" using \<open>d \<in> name ` set ps\<close> by simp
  qed
  have c2: "\<forall>p \<in> set ps. map_of ?deg0 (name p) = Some 0" using map_of_zero by blast
  from build_graph_ok[OF c1 c2 dn] obtain deg where
    g1: "build_graph byName ps (?deg0, ?dm0)
           = Inr (deg, \<lambda>d. map_option (\<lambda>ds. ds @ dependents_of ps d) (?dm0 d))"
    and g2: "map fst deg = map fst ?deg0"
    and g3: "\<And>p. p \<in> set ps \<Longrightarrow> map_of deg (name p) = Some (int (length (dependencies p)))"
    by blast
  let ?dm = "\<lambda>d. map_option (\<lambda>ds. ds @ dependents_of ps d) (?dm0 d)"
  have keys: "map fst deg = map name ps" using g2 by (simp add: comp_def)
  have go: "graph_of ps byName ?dm"
    unfolding graph_of_def using dn kd b3 by simp
  have dk: "distinct (map fst deg)" using keys dn by simp
  have q1: "distinct (initial_queue deg)"
    unfolding initial_queue_def using dk by (simp add: distinct_map_filter)
  have q2: "\<And>p. p \<in> set ps \<Longrightarrow> (name p \<in> set (initial_queue deg)) = (unmet {} p = 0)"
  proof -
    fix p assume p: "p \<in> set ps"
    have "(name p \<in> set (initial_queue deg)) = ((name p, 0) \<in> set deg)"
      unfolding initial_queue_def by (auto simp: image_iff)
    also have "\<dots> = (map_of deg (name p) = Some 0)" using dk by simp
    also have "\<dots> = (unmet {} p = 0)" using g3[OF p] by (simp add: unmet_def)
    finally show "(name p \<in> set (initial_queue deg)) = (unmet {} p = 0)" .
  qed
  have q3: "set (initial_queue deg) \<subseteq> name ` set ps"
  proof
    fix n assume "n \<in> set (initial_queue deg)"
    then have "n \<in> set (map fst deg)" unfolding initial_queue_def by auto
    then show "n \<in> name ` set ps" using keys by simp
  qed
  have inv: "kahn_inv ps (initial_queue deg) deg []"
    unfolding kahn_inv_def using q1 q2 q3 keys g3
    by (simp add: unmet_def deps_before_def)
  show ?thesis using b1 g1 go inv ig by auto
qed

lemma kahn_result:
  assumes dn: "distinct (map name ps)" and kd: "known_deps ps"
  shows "\<exists>byName g out. index_by_name ps Map.empty = Inr byName
           \<and> build_graph byName ps (init_graph ps) = Inr g
           \<and> kahn byName (snd g) (initial_queue (fst g)) (fst g) [] = Inr out
           \<and> set out \<subseteq> set ps \<and> distinct (map name out) \<and> deps_before out
           \<and> (\<forall>p \<in> set ps. (p \<in> set out) = (set (dependencies p) \<subseteq> name ` set out))"
proof -
  from sort_setup[OF dn kd] obtain byName g where s:
    "index_by_name ps Map.empty = Inr byName" "build_graph byName ps (init_graph ps) = Inr g"
    "graph_of ps byName (snd g)" "kahn_inv ps (initial_queue (fst g)) (fst g) []" by blast
  from kahn_total[OF s(3) s(4)] obtain out deg' where k:
    "kahn byName (snd g) (initial_queue (fst g)) (fst g) [] = Inr out" "kahn_inv ps [] deg' out"
    by blast
  from k(2) have f: "set out \<subseteq> set ps" "distinct (map name out)" "deps_before out"
    "\<And>p. p \<in> set ps \<Longrightarrow> (name p \<in> name ` set out) = (unmet (name ` set out) p = 0)"
    by (auto simp: kahn_inv_def)
  have "\<forall>p \<in> set ps. (p \<in> set out) = (set (dependencies p) \<subseteq> name ` set out)"
  proof
    fix p assume p: "p \<in> set ps"
    have "(p \<in> set out) = (name p \<in> name ` set out)"
    proof
      assume "p \<in> set out" then show "name p \<in> name ` set out" by simp
    next
      assume "name p \<in> name ` set out"
      then obtain q where q: "q \<in> set out" "name q = name p" by (auto simp: image_iff)
      with f(1) have "q \<in> set ps" by auto
      from name_inj[OF dn this p q(2)] q(1) show "p \<in> set out" by simp
    qed
    then show "(p \<in> set out) = (set (dependencies p) \<subseteq> name ` set out)"
      using f(4)[OF p] by (simp add: unmet_zero)
  qed
  with s(1,2) k(1) f(1,2,3) show ?thesis by blast
qed

lemma distinct_names_distinct: "distinct (map name ps) \<Longrightarrow> distinct ps"
  by (simp add: distinct_map)

lemma full_order:
  assumes "distinct (map name ps)" "set out \<subseteq> set ps" "distinct (map name out)"
  shows "(length out = length ps) = (set out = set ps)"
proof
  assume l: "length out = length ps"
  have "card (set out) = length out" "card (set ps) = length ps"
    using assms distinct_names_distinct distinct_card by blast+
  then show "set out = set ps" using l assms(2) by (simp add: card_subset_eq)
next
  assume "set out = set ps"
  then have "card (set out) = card (set ps)" by simp
  then show "length out = length ps"
    using assms distinct_names_distinct distinct_card by metis
qed

lemma topo_unfold:
  assumes dn: "distinct (map name ps)" and kd: "known_deps ps"
  shows "\<exists>out. set out \<subseteq> set ps \<and> distinct (map name out) \<and> deps_before out
           \<and> (\<forall>p \<in> set ps. (p \<in> set out) = (set (dependencies p) \<subseteq> name ` set out))
           \<and> topologicalSort ps =
               (if length out \<noteq> length ps
                then Inl (CircularDependency (map name (filter (\<lambda>p. p \<notin> set out) ps)))
                else Inr out)"
proof -
  from kahn_result[OF dn kd] obtain byName g out where k:
    "index_by_name ps Map.empty = Inr byName"
    "build_graph byName ps (init_graph ps) = Inr g"
    "kahn byName (snd g) (initial_queue (fst g)) (fst g) [] = Inr out"
    "set out \<subseteq> set ps" "distinct (map name out)" "deps_before out"
    "\<forall>p \<in> set ps. (p \<in> set out) = (set (dependencies p) \<subseteq> name ` set out)"
    by blast
  have "topologicalSort ps =
               (if length out \<noteq> length ps
                then Inl (CircularDependency (map name (filter (\<lambda>p. p \<notin> set out) ps)))
                else Inr out)"
    by (simp only: topologicalSort_def k(1,2,3) sum.case)
  with k(4,5,6,7) show ?thesis by blast
qed

lemma topo_duplicate:
  assumes "\<not> distinct (map name ps)"
  shows "\<exists>n. topologicalSort ps = Inl (DuplicateProviderName n)"
proof (cases "index_by_name ps Map.empty")
  case (Inl e)
  with index_by_name_error[OF Inl] show ?thesis by (auto simp: topologicalSort_def)
next
  case (Inr m)
  with index_by_name_distinct[OF Inr] assms show ?thesis by simp
qed

lemma topo_unknown:
  assumes dn: "distinct (map name ps)" and kd: "\<not> known_deps ps"
  shows "\<exists>n d. topologicalSort ps = Inl (UnknownDependency n d)"
proof -
  from index_by_name_ok[OF dn, of Map.empty] obtain byName where
    b1: "index_by_name ps Map.empty = Inr byName"
    and b2: "\<And>n. byName n = (case find (\<lambda>p. name p = n) ps of Some p \<Rightarrow> Some p | None \<Rightarrow> None)"
    by auto
  have b2': "byName n = find (\<lambda>p. name p = n) ps" for n
    using b2[of n] by (cases "find (\<lambda>p. name p = n) ps") simp_all
  have b3: "\<And>n p. (byName n = Some p) = (p \<in> set ps \<and> name p = n)"
    by (simp only: b2' find_name[OF dn])
  let ?deg0 = "map (\<lambda>p. (name p, 0::int)) ps"
  let ?dm0 = "\<lambda>n. if n \<in> name ` set ps then Some ([]::string list) else None"
  have ig: "init_graph ps = (?deg0, ?dm0)" using init_graph_eq[OF dn] .
  have b4: "byName d \<noteq> None \<Longrightarrow> d \<in> name ` set ps" for d
  proof -
    assume "byName d \<noteq> None"
    then obtain q where "byName d = Some q" by auto
    then have "q \<in> set ps" "name q = d" using b3 by auto
    then show "d \<in> name ` set ps" by (metis imageI)
  qed
  have dom: "\<forall>d. byName d \<noteq> None \<longrightarrow> ?dm0 d \<noteq> None"
    using b4 by simp
  from build_graph_cases[OF dom, of ps ?deg0]
  show ?thesis
  proof
    assume "\<exists>g. build_graph byName ps (?deg0, ?dm0) = Inr g
              \<and> (\<forall>p\<in>set ps. \<forall>d\<in>set (dependencies p). byName d \<noteq> None)"
    then have "\<forall>p\<in>set ps. \<forall>d\<in>set (dependencies p). d \<in> name ` set ps"
      using b4 by blast
    then have "known_deps ps" by (auto simp: known_deps_def)
    with kd show ?thesis by simp
  next
    assume "\<exists>p\<in>set ps. \<exists>d\<in>set (dependencies p). byName d = None
              \<and> build_graph byName ps (?deg0, ?dm0) = Inl (UnknownDependency (name p) d)"
    then show ?thesis by (auto simp: topologicalSort_def b1 ig)
  qed
qed

lemma topo_success:
  assumes "topologicalSort ps = Inr out"
  shows "distinct (map name ps) \<and> known_deps ps \<and> set out = set ps
         \<and> distinct (map name out) \<and> deps_before out"
proof -
  have dn: "distinct (map name ps)"
    using assms topo_duplicate[of ps] by (cases "distinct (map name ps)") auto
  have kd: "known_deps ps"
    using assms topo_unknown[OF dn] by (cases "known_deps ps") auto
  from topo_unfold[OF dn kd] assms obtain out' where o:
    "set out' \<subseteq> set ps" "distinct (map name out')" "deps_before out'"
    "length out' = length ps" "out' = out"
    by (auto split: if_splits)
  from full_order[OF dn o(1) o(2)] o(4) have "set out' = set ps" by simp
  with dn kd o show ?thesis by simp
qed

lemma topo_never_undefined: "topologicalSort ps \<noteq> Inl Undefined"
proof (cases "distinct (map name ps)")
  case False
  with topo_duplicate[of ps] show ?thesis by auto
next
  case True
  show ?thesis
  proof (cases "known_deps ps")
    case False
    with topo_unknown[OF True] show ?thesis by auto
  next
    case kd: True
    from topo_unfold[OF True kd] show ?thesis by (auto split: if_splits)
  qed
qed

lemma order_rank:
  assumes "distinct (map name out)" "i < length out"
  shows "length (takeWhile (\<lambda>q. name q \<noteq> name (out ! i)) out) = i"
proof -
  have "takeWhile (\<lambda>q. name q \<noteq> name (out ! i)) out = take i out"
  proof (rule takeWhile_eq_take_P_nth)
    fix j assume "j < i" "j < length out"
    then show "name (out ! j) \<noteq> name (out ! i)"
      using assms nth_eq_iff_index_eq[of "map name out" j i] by simp
  next
    show "\<not> name (out ! i) \<noteq> name (out ! i)" by simp
  qed
  then show ?thesis using assms(2) by simp
qed

lemma order_edges:
  assumes dn: "distinct (map name out)" and db: "deps_before out"
    and e: "(a, d) \<in> dep_rel out"
  shows "d \<in> name ` set out
         \<and> length (takeWhile (\<lambda>q. name q \<noteq> d) out) < length (takeWhile (\<lambda>q. name q \<noteq> a) out)"
proof -
  from e obtain p where p: "p \<in> set out" "name p = a" "d \<in> set (dependencies p)"
    by (auto simp: dep_rel_iff)
  then obtain i where i: "i < length out" "out ! i = p" by (auto simp: in_set_conv_nth)
  with db p(3) obtain j where j: "j < i" "name (out ! j) = d" by (auto simp: deps_before_def)
  have r1: "length (takeWhile (\<lambda>q. name q \<noteq> name (out ! i)) out) = i"
    by (rule order_rank[OF dn i(1)])
  have r2: "length (takeWhile (\<lambda>q. name q \<noteq> name (out ! j)) out) = j"
    using order_rank[OF dn, of j] j(1) i(1) by simp
  have "out ! j \<in> set out" using j(1) i(1) by simp
  then have r3: "d \<in> name ` set out" using j(2) by (metis imageI)
  show ?thesis using r1 r2 r3 i(2) p(2) j by simp
qed

lemma order_acyclic:
  assumes dn: "distinct (map name out)" and db: "deps_before out"
  shows "acyclic (dep_rel out)"
proof -
  let ?f = "\<lambda>n. length (takeWhile (\<lambda>q. name q \<noteq> n) out)"
  have "dep_rel out \<subseteq> (measure ?f)\<inverse>"
    using order_edges[OF dn db] by auto
  moreover have "acyclic ((measure ?f)\<inverse>)"
    by (simp add: acyclic_converse wf_acyclic)
  ultimately show ?thesis by (rule acyclic_subset[rotated])
qed

lemma unsorted_has_unsorted_dep:
  assumes dn: "distinct (map name ps)" and kd: "known_deps ps"
    and sub: "set out \<subseteq> set ps"
    and cl: "\<forall>p \<in> set ps. (p \<in> set out) = (set (dependencies p) \<subseteq> name ` set out)"
    and p: "p \<in> set ps" "p \<notin> set out"
  shows "\<exists>q \<in> set ps. q \<notin> set out \<and> name q \<in> set (dependencies p)"
proof -
  from cl p obtain d where d: "d \<in> set (dependencies p)" "d \<notin> name ` set out" by auto
  with kd p(1) have "d \<in> name ` set ps" by (auto simp: known_deps_def)
  then obtain q where q: "q \<in> set ps" "name q = d" by (auto simp: image_iff)
  with d(2) have "q \<notin> set out" by auto
  with q d(1) show ?thesis by auto
qed

lemma acyclic_sorts_all:
  assumes dn: "distinct (map name ps)" and kd: "known_deps ps"
    and ac: "acyclic (dep_rel ps)"
    and sub: "set out \<subseteq> set ps"
    and cl: "\<forall>p \<in> set ps. (p \<in> set out) = (set (dependencies p) \<subseteq> name ` set out)"
  shows "set out = set ps"
proof (rule ccontr)
  assume "set out \<noteq> set ps"
  with sub obtain p0 where p0: "p0 \<in> set ps" "p0 \<notin> set out" by auto
  let ?Q = "name ` (set ps - set out)"
  have "finite (dep_rel ps)" by (simp add: dep_rel_def)
  then have w: "wf ((dep_rel ps)\<inverse>)" using ac by (rule finite_acyclic_wf_converse)
  have "name p0 \<in> ?Q" using p0 by auto
  with w obtain z where z: "z \<in> ?Q" "\<And>y. (y, z) \<in> (dep_rel ps)\<inverse> \<Longrightarrow> y \<notin> ?Q"
    by (rule wfE_min) blast
  from z(1) obtain p where p: "p \<in> set ps" "p \<notin> set out" "name p = z" by auto
  from unsorted_has_unsorted_dep[OF dn kd sub cl p(1,2)]
  obtain q where q: "q \<in> set ps" "q \<notin> set out" "name q \<in> set (dependencies p)" by blast
  have "(z, name q) \<in> dep_rel ps" using p q(3) by (auto simp: dep_rel_iff)
  then have "name q \<notin> ?Q" using z(2) by simp
  with q(1,2) show False by auto
qed

lemma sorted_closed:
  assumes dn: "distinct (map name ps)" and sub: "set out \<subseteq> set ps"
    and dno: "distinct (map name out)" and db: "deps_before out"
    and a: "a \<in> name ` set out" and e: "(a, b) \<in> dep_rel ps"
  shows "b \<in> name ` set out
         \<and> length (takeWhile (\<lambda>q. name q \<noteq> b) out) < length (takeWhile (\<lambda>q. name q \<noteq> a) out)"
proof -
  from e obtain q where q: "q \<in> set ps" "name q = a" "b \<in> set (dependencies q)"
    by (auto simp: dep_rel_iff)
  from a obtain q' where q': "q' \<in> set out" "name q' = a" by (auto simp: image_iff)
  with sub have "q' \<in> set ps" by auto
  from name_inj[OF dn this q(1)] q'(2) q(2) have "q' = q" by simp
  with q' q have "(a, b) \<in> dep_rel out" by (auto simp: dep_rel_iff)
  from order_edges[OF dno db this] show ?thesis .
qed

lemma sorted_closed_rtrancl:
  assumes dn: "distinct (map name ps)" and sub: "set out \<subseteq> set ps"
    and dno: "distinct (map name out)" and db: "deps_before out"
  shows "(a, b) \<in> (dep_rel ps)\<^sup>* \<Longrightarrow> a \<in> name ` set out \<Longrightarrow> b \<in> name ` set out"
proof (induction rule: rtrancl_induct)
  case base
  then show ?case .
next
  case (step y z)
  from sorted_closed[OF dn sub dno db step.IH[OF step.prems] step.hyps(2)] show ?case by simp
qed

lemma sorted_closed_trancl:
  assumes dn: "distinct (map name ps)" and sub: "set out \<subseteq> set ps"
    and dno: "distinct (map name out)" and db: "deps_before out"
  shows "(a, b) \<in> (dep_rel ps)\<^sup>+ \<Longrightarrow> a \<in> name ` set out \<Longrightarrow>
         b \<in> name ` set out
         \<and> length (takeWhile (\<lambda>q. name q \<noteq> b) out) < length (takeWhile (\<lambda>q. name q \<noteq> a) out)"
proof (induction rule: trancl_induct)
  case (base y)
  from sorted_closed[OF dn sub dno db base.prems base.hyps] show ?case .
next
  case (step y z)
  from step.IH[OF step.prems] have y: "y \<in> name ` set out"
    "length (takeWhile (\<lambda>q. name q \<noteq> y) out) < length (takeWhile (\<lambda>q. name q \<noteq> a) out)"
    by auto
  from sorted_closed[OF dn sub dno db y(1) step.hyps(2)] y(2) show ?case by simp
qed

lemma sorted_reaches_no_cycle:
  assumes dn: "distinct (map name ps)" and sub: "set out \<subseteq> set ps"
    and dno: "distinct (map name out)" and db: "deps_before out"
    and p: "p \<in> set out"
  shows "\<not> reaches_cycle ps (name p)"
proof
  assume "reaches_cycle ps (name p)"
  then obtain c where c: "(name p, c) \<in> (dep_rel ps)\<^sup>*" "(c, c) \<in> (dep_rel ps)\<^sup>+"
    by (auto simp: reaches_cycle_def)
  have "name p \<in> name ` set out" using p by simp
  from sorted_closed_rtrancl[OF dn sub dno db c(1) this] have "c \<in> name ` set out" .
  from sorted_closed_trancl[OF dn sub dno db c(2) this] show False by simp
qed

lemma unsorted_reaches_cycle:
  assumes dn: "distinct (map name ps)" and kd: "known_deps ps"
    and sub: "set out \<subseteq> set ps"
    and cl: "\<forall>p \<in> set ps. (p \<in> set out) = (set (dependencies p) \<subseteq> name ` set out)"
    and p: "p \<in> set ps" "p \<notin> set out"
  shows "reaches_cycle ps (name p)"
proof (rule ccontr)
  assume n: "\<not> reaches_cycle ps (name p)"
  let ?r = "dep_rel ps"
  let ?T = "{u \<in> name ` (set ps - set out). \<not> reaches_cycle ps u}"
  let ?rT = "?r \<inter> (?T \<times> ?T)"
  have acT: "acyclic ?rT"
    unfolding acyclic_def
  proof (intro allI notI)
    fix t assume t: "(t, t) \<in> ?rT\<^sup>+"
    from tranclD[OF t] obtain y where "(t, y) \<in> ?rT" by blast
    then have tT: "t \<in> ?T" by simp
    have "?rT \<subseteq> ?r" by auto
    from trancl_mono[OF t this] have "(t, t) \<in> ?r\<^sup>+" .
    then have "reaches_cycle ps t" by (auto simp: reaches_cycle_def)
    with tT show False by simp
  qed
  have "finite ?r" by (simp add: dep_rel_def)
  then have "finite ?rT" by simp
  then have w: "wf (?rT\<inverse>)" using acT by (rule finite_acyclic_wf_converse)
  have "name p \<in> ?T" using p n by auto
  with w obtain z where z: "z \<in> ?T" "\<And>y. (y, z) \<in> ?rT\<inverse> \<Longrightarrow> y \<notin> ?T"
    by (rule wfE_min) blast
  from z(1) obtain q where q: "q \<in> set ps" "q \<notin> set out" "name q = z" by auto
  from unsorted_has_unsorted_dep[OF dn kd sub cl q(1,2)]
  obtain q' where q': "q' \<in> set ps" "q' \<notin> set out" "name q' \<in> set (dependencies q)" by blast
  have e: "(z, name q') \<in> ?r" using q q'(3) by (auto simp: dep_rel_iff)
  have "name q' \<notin> ?T"
  proof
    assume "name q' \<in> ?T"
    with e z(1) have "(name q', z) \<in> ?rT\<inverse>" by simp
    from z(2)[OF this] \<open>name q' \<in> ?T\<close> show False by simp
  qed
  with q'(1,2) have "reaches_cycle ps (name q')" by auto
  then obtain c where "(name q', c) \<in> ?r\<^sup>*" "(c, c) \<in> ?r\<^sup>+" by (auto simp: reaches_cycle_def)
  with e have "(z, c) \<in> ?r\<^sup>*" "(c, c) \<in> ?r\<^sup>+" by auto
  then have "reaches_cycle ps z" by (auto simp: reaches_cycle_def)
  with z(1) show False by simp
qed

lemma cycle_has_provider:
  assumes "\<not> acyclic (dep_rel ps)"
  shows "\<exists>p \<in> set ps. reaches_cycle ps (name p)"
proof -
  from assms obtain c where c: "(c, c) \<in> (dep_rel ps)\<^sup>+" by (auto simp: acyclic_def)
  from tranclD[OF c] obtain y where "(c, y) \<in> dep_rel ps" by blast
  then obtain p where "p \<in> set ps" "name p = c" by (auto simp: dep_rel_iff)
  with c show ?thesis by (auto simp: reaches_cycle_def)
qed

lemma topo_acyclic:
  assumes dn: "distinct (map name ps)" and kd: "known_deps ps" and ac: "acyclic (dep_rel ps)"
  shows "\<exists>out. topologicalSort ps = Inr out"
proof -
  from topo_unfold[OF dn kd] obtain out where o:
    "set out \<subseteq> set ps" "distinct (map name out)" "deps_before out"
    "\<forall>p \<in> set ps. (p \<in> set out) = (set (dependencies p) \<subseteq> name ` set out)"
    "topologicalSort ps =
       (if length out \<noteq> length ps
        then Inl (CircularDependency (map name (filter (\<lambda>p. p \<notin> set out) ps)))
        else Inr out)" by blast
  from acyclic_sorts_all[OF dn kd ac o(1) o(4)] have "set out = set ps" .
  with full_order[OF dn o(1) o(2)] have "length out = length ps" by simp
  with o(5) show ?thesis by simp
qed

lemma topo_cyclic:
  assumes dn: "distinct (map name ps)" and kd: "known_deps ps" and cy: "\<not> acyclic (dep_rel ps)"
  shows "\<exists>out. set out \<subseteq> set ps \<and> distinct (map name out) \<and> deps_before out
           \<and> (\<forall>p \<in> set ps. (p \<notin> set out) = reaches_cycle ps (name p))
           \<and> topologicalSort ps
               = Inl (CircularDependency (map name (filter (\<lambda>p. p \<notin> set out) ps)))"
proof -
  from topo_unfold[OF dn kd] obtain out where o:
    "set out \<subseteq> set ps" "distinct (map name out)" "deps_before out"
    "\<forall>p \<in> set ps. (p \<in> set out) = (set (dependencies p) \<subseteq> name ` set out)"
    "topologicalSort ps =
       (if length out \<noteq> length ps
        then Inl (CircularDependency (map name (filter (\<lambda>p. p \<notin> set out) ps)))
        else Inr out)" by blast
  have ch: "\<forall>p \<in> set ps. (p \<notin> set out) = reaches_cycle ps (name p)"
    using unsorted_reaches_cycle[OF dn kd o(1) o(4)]
      sorted_reaches_no_cycle[OF dn o(1) o(2) o(3)] by blast
  from cycle_has_provider[OF cy] ch have "set out \<noteq> set ps" by auto
  with full_order[OF dn o(1) o(2)] have "length out \<noteq> length ps" by simp
  with o(5) have "topologicalSort ps
      = Inl (CircularDependency (map name (filter (\<lambda>p. p \<notin> set out) ps)))" by simp
  with o(1,2,3) ch show ?thesis by blast
qed

section \<open>Properties of the application lifecycle\<close>

lemma publish_eq:
  "publish ev s = (fst (emit ev (bus s)), s\<lparr>bus := snd (emit ev (bus s))\<rparr>)"
  by (simp add: publish_def split: prod.splits)

lemma shutdown_one_eq:
  "shutdown_one p s = s\<lparr>trace := trace s @ shutdown_events [p]\<rparr>"
  by (cases "awaited (shuts p)") (simp_all add: shutdown_one_def observe_def shutdown_events_def)

lemma shutdown_events_Cons:
  "shutdown_events (p # ps) = shutdown_events [p] @ shutdown_events ps"
  by (simp add: shutdown_events_def)

lemma fold_shutdown_one:
  "fold shutdown_one ps s = s\<lparr>trace := trace s @ shutdown_events ps\<rparr>"
proof (induction ps arbitrary: s)
  case Nil
  then show ?case by (simp add: shutdown_events_def)
next
  case (Cons p ps)
  have "fold shutdown_one (p # ps) s = fold shutdown_one ps (shutdown_one p s)" by simp
  also have "\<dots> = (shutdown_one p s)\<lparr>trace := trace (shutdown_one p s) @ shutdown_events ps\<rparr>"
    by (rule Cons.IH)
  also have "\<dots> = s\<lparr>trace := trace s @ shutdown_events (p # ps)\<rparr>"
    by (simp add: shutdown_one_eq shutdown_events_Cons[of p ps])
  finally show ?case .
qed

lemma shutdownProviders_eq:
  "shutdownProviders s =
     s\<lparr>trace := trace s @ shutdown_events (rev (bootedProviders s)), bootedProviders := []\<rparr>"
  by (simp add: shutdownProviders_def fold_shutdown_one Let_def)

lemma register_all_ok:
  "\<forall>p \<in> set ps. called (registers p) = None \<Longrightarrow>
   register_all ps s = (Inr (), s\<lparr>trace := trace s @ register_events ps\<rparr>)"
  by (induction ps arbitrary: s) (simp_all add: register_events_def observe_def)

lemma register_all_fail:
  "\<forall>q \<in> set pre. called (registers q) = None \<Longrightarrow> called (registers p) = Some e \<Longrightarrow>
   register_all (pre @ p # post) s =
     (Inl (Thrown e), s\<lparr>trace := trace s @ register_events (pre @ [p])\<rparr>)"
  by (induction pre arbitrary: s) (simp_all add: register_events_def observe_def)

lemma boot_all_ok:
  "\<forall>p \<in> set ps. awaited (boots p) = None \<Longrightarrow>
   boot_all ps s =
     (Inr (), s\<lparr>trace := trace s @ boot_events ps, bootedProviders := bootedProviders s @ ps\<rparr>)"
  by (induction ps arbitrary: s) (simp_all add: boot_events_def observe_def)

lemma boot_all_fail:
  "\<forall>q \<in> set pre. awaited (boots q) = None \<Longrightarrow> awaited (boots p) = Some e \<Longrightarrow>
   boot_all (pre @ p # post) s =
     (Inl (Thrown e),
      s\<lparr>trace := trace s @ boot_events pre @ [BootCalled (name p)]
                  @ shutdown_events (rev (bootedProviders s @ pre)),
        bootedProviders := []\<rparr>)"
proof (induction pre arbitrary: s)
  case Nil
  then show ?case
    by (simp add: boot_events_def observe_def shutdownProviders_eq)
next
  case (Cons a pre)
  then show ?case by (simp add: boot_events_def observe_def)
qed

lemma run_callbacks_ok:
  "\<forall>cb \<in> set cbs. awaited cb = None \<Longrightarrow>
   run_callbacks cbs s = (Inr (), s\<lparr>trace := trace s @ map CallbackCalled cbs\<rparr>)"
  by (induction cbs arbitrary: s) (simp_all add: observe_def)

lemma run_callbacks_fail:
  "\<forall>c \<in> set pre. awaited c = None \<Longrightarrow> awaited cb = Some e \<Longrightarrow>
   run_callbacks (pre @ cb # post) s =
     (Inl (Thrown e), s\<lparr>trace := trace s @ map CallbackCalled (pre @ [cb])\<rparr>)"
  by (induction pre arbitrary: s) (simp_all add: observe_def)

lemma shutdown_calls_append:
  "shutdown_calls (xs @ ys) = shutdown_calls xs @ shutdown_calls ys"
  by (induction xs rule: shutdown_calls.induct) simp_all

lemma shutdown_calls_events:
  "shutdown_calls (shutdown_events ps) = map name ps"
proof (induction ps)
  case Nil
  then show ?case by (simp add: shutdown_events_def)
next
  case (Cons p ps)
  then show ?case by (cases "awaited (shuts p)") (simp_all add: shutdown_events_def)
qed

lemma emit_first_failure:
  "listeners b ev = Some (pre @ fn # post) \<Longrightarrow> \<forall>g \<in> set pre. awaited (ending g) = None \<Longrightarrow>
   awaited (ending fn) = Some e \<Longrightarrow> fst (emit ev b) = Inl (Thrown e)"
  by (simp add: emit_result first_rejected_some)

lemma boot_calls_append: "boot_calls (xs @ ys) = boot_calls xs @ boot_calls ys"
  by (induction xs rule: boot_calls.induct) simp_all

lemma completed_boots_append: "completed_boots (xs @ ys) = completed_boots xs @ completed_boots ys"
  by (induction xs rule: completed_boots.induct) simp_all

lemma calls_of_register_events:
  "boot_calls (register_events ps) = []" "completed_boots (register_events ps) = []"
  "shutdown_calls (register_events ps) = []"
  by (induction ps) (simp_all add: register_events_def)

lemma calls_of_boot_events:
  "boot_calls (boot_events ps) = map name ps" "completed_boots (boot_events ps) = map name ps"
  "shutdown_calls (boot_events ps) = []"
  by (induction ps) (simp_all add: boot_events_def)

lemma boot_calls_shutdown_events: "boot_calls (shutdown_events ps) = []"
  unfolding shutdown_events_def by (induction ps) (auto split: option.splits)

lemma completed_boots_shutdown_events: "completed_boots (shutdown_events ps) = []"
  unfolding shutdown_events_def by (induction ps) (auto split: option.splits)

lemma calls_of_callbacks:
  "boot_calls (map CallbackCalled cbs) = []" "completed_boots (map CallbackCalled cbs) = []"
  "shutdown_calls (map CallbackCalled cbs) = []"
  by (induction cbs) simp_all

lemma run_callbacks_frame:
  "\<exists>cbs'. snd (run_callbacks cbs s) = s\<lparr>trace := trace s @ map CallbackCalled cbs'\<rparr>"
proof (cases "\<exists>cb \<in> set cbs. awaited cb \<noteq> None")
  case True
  from split_list_first_prop[OF True] obtain pre cb post where
    d: "cbs = pre @ cb # post" "awaited cb \<noteq> None" "\<forall>c \<in> set pre. \<not> awaited c \<noteq> None" by blast
  then obtain e where "awaited cb = Some e" by auto
  with run_callbacks_fail[of pre cb e post s] d
  have "snd (run_callbacks cbs s) = s\<lparr>trace := trace s @ map CallbackCalled (pre @ [cb])\<rparr>"
    by simp
  then show ?thesis by blast
next
  case False
  then have "\<forall>cb \<in> set cbs. awaited cb = None" by simp
  from run_callbacks_ok[OF this, of s]
  have "snd (run_callbacks cbs s) = s\<lparr>trace := trace s @ map CallbackCalled cbs\<rparr>" by simp
  then show ?thesis by blast
qed

lemma start_reaches_sort:
  "\<not> booted s \<Longrightarrow> fst (emit ''app:starting'' (bus s)) = Inr () \<Longrightarrow>
   start s =
     (case topologicalSort (providers s) of
        Inl e \<Rightarrow> (Inl e, s\<lparr>bus := snd (emit ''app:starting'' (bus s))\<rparr>)
      | Inr sorted' \<Rightarrow>
          (case register_all sorted' (s\<lparr>bus := snd (emit ''app:starting'' (bus s))\<rparr>) of
             (Inl e, s2) \<Rightarrow> (Inl e, s2)
           | (Inr u, s2) \<Rightarrow>
               (case boot_all sorted' s2 of
                  (Inl e, s3) \<Rightarrow> (Inl e, s3)
                | (Inr u, s3) \<Rightarrow>
                    (case run_callbacks (bootedCallbacks s3) (s3\<lparr>booted := True\<rparr>) of
                       (Inl e, s4) \<Rightarrow> (Inl e, s4)
                     | (Inr u, s4) \<Rightarrow> publish ''app:booted'' (installSignalHandlers s4)))))"
  by (simp add: start_def publish_eq)

lemma start_emit_failed:
  "\<not> booted s \<Longrightarrow> fst (emit ''app:starting'' (bus s)) = Inl e \<Longrightarrow>
   start s = (Inl e, s\<lparr>bus := snd (emit ''app:starting'' (bus s))\<rparr>)"
  by (simp add: start_def publish_eq)

lemma start_sort_failed:
  "\<not> booted s \<Longrightarrow> fst (emit ''app:starting'' (bus s)) = Inr () \<Longrightarrow>
   topologicalSort (providers s) = Inl e \<Longrightarrow>
   start s = (Inl e, s\<lparr>bus := snd (emit ''app:starting'' (bus s))\<rparr>)"
  by (simp add: start_reaches_sort)

lemma start_register_failed:
  assumes "\<not> booted s" "fst (emit ''app:starting'' (bus s)) = Inr ()"
    and "topologicalSort (providers s) = Inr (pre @ p # post)"
    and "\<forall>q \<in> set pre. called (registers q) = None" "called (registers p) = Some e"
  shows "start s = (Inl (Thrown e),
           s\<lparr>bus := snd (emit ''app:starting'' (bus s)),
             trace := trace s @ register_events (pre @ [p])\<rparr>)"
  using assms by (simp add: start_reaches_sort register_all_fail)

lemma start_boot_failed:
  assumes "\<not> booted s" "fst (emit ''app:starting'' (bus s)) = Inr ()"
    and "topologicalSort (providers s) = Inr (pre @ p # post)"
    and "\<forall>q \<in> set (pre @ p # post). called (registers q) = None"
    and "\<forall>q \<in> set pre. awaited (boots q) = None" "awaited (boots p) = Some e"
  shows "start s = (Inl (Thrown e),
           s\<lparr>bus := snd (emit ''app:starting'' (bus s)),
             trace := trace s @ register_events (pre @ p # post) @ boot_events pre
                        @ [BootCalled (name p)] @ shutdown_events (rev (bootedProviders s @ pre)),
             bootedProviders := []\<rparr>)"
proof -
  let ?s1 = "s\<lparr>bus := snd (emit ''app:starting'' (bus s))\<rparr>"
  have r: "register_all (pre @ p # post) ?s1
             = (Inr (), ?s1\<lparr>trace := trace ?s1 @ register_events (pre @ p # post)\<rparr>)"
    by (rule register_all_ok[OF assms(4)])
  let ?s2 = "?s1\<lparr>trace := trace ?s1 @ register_events (pre @ p # post)\<rparr>"
  have b: "boot_all (pre @ p # post) ?s2
      = (Inl (Thrown e),
         ?s2\<lparr>trace := trace ?s2 @ boot_events pre @ [BootCalled (name p)]
                         @ shutdown_events (rev (bootedProviders ?s2 @ pre)),
             bootedProviders := []\<rparr>)"
    by (rule boot_all_fail[OF assms(5,6)])
  have "start s = (Inl (Thrown e),
         ?s2\<lparr>trace := trace ?s2 @ boot_events pre @ [BootCalled (name p)]
                         @ shutdown_events (rev (bootedProviders ?s2 @ pre)),
             bootedProviders := []\<rparr>)"
    by (simp only: start_reaches_sort[OF assms(1,2)] assms(3) sum.case r b prod.case)
  then show ?thesis by simp
qed

lemma start_booted:
  assumes "\<not> booted s" "fst (emit ''app:starting'' (bus s)) = Inr ()"
    and "topologicalSort (providers s) = Inr sorted'"
    and "\<forall>q \<in> set sorted'. called (registers q) = None"
    and "\<forall>q \<in> set sorted'. awaited (boots q) = None"
  shows "\<exists>cbs. trace (snd (start s))
                = trace s @ register_events sorted' @ boot_events sorted' @ map CallbackCalled cbs
         \<and> booted (snd (start s))
         \<and> bootedProviders (snd (start s)) = bootedProviders s @ sorted'
         \<and> shuttingDown (snd (start s)) = shuttingDown s"
proof -
  let ?s1 = "s\<lparr>bus := snd (emit ''app:starting'' (bus s))\<rparr>"
  let ?s2 = "?s1\<lparr>trace := trace ?s1 @ register_events sorted'\<rparr>"
  let ?s3 = "?s2\<lparr>trace := trace ?s2 @ boot_events sorted',
                  bootedProviders := bootedProviders ?s2 @ sorted'\<rparr>"
  have r: "register_all sorted' ?s1 = (Inr (), ?s2)" by (rule register_all_ok[OF assms(4)])
  have b: "boot_all sorted' ?s2 = (Inr (), ?s3)" by (rule boot_all_ok[OF assms(5)])
  let ?s3b = "?s3\<lparr>booted := True\<rparr>"
  from run_callbacks_frame[of "bootedCallbacks ?s3" ?s3b] obtain cbs where
    c: "snd (run_callbacks (bootedCallbacks ?s3) ?s3b) = ?s3b\<lparr>trace := trace ?s3b @ map CallbackCalled cbs\<rparr>"
    by blast
  have st: "start s =
      (case run_callbacks (bootedCallbacks ?s3) ?s3b of
         (Inl e, s4) \<Rightarrow> (Inl e, s4)
       | (Inr u, s4) \<Rightarrow> publish ''app:booted'' (installSignalHandlers s4))"
    by (simp only: start_reaches_sort[OF assms(1,2)] assms(3) sum.case r b prod.case)
  obtain res s4 where rc: "run_callbacks (bootedCallbacks ?s3) ?s3b = (res, s4)" by force
  with c have s4: "s4 = ?s3b\<lparr>trace := trace ?s3b @ map CallbackCalled cbs\<rparr>" by simp
  show ?thesis
  proof (cases res)
    case (Inl e)
    with st rc have "snd (start s) = s4" by simp
    with s4 show ?thesis by (intro exI[of _ cbs]) simp
  next
    case (Inr u)
    with st rc have "snd (start s) = snd (publish ''app:booted'' (installSignalHandlers s4))" by simp
    with s4 show ?thesis by (intro exI[of _ cbs]) (simp add: publish_eq installSignalHandlers_def)
  qed
qed

lemma error_logged:
  "q \<in> set ps \<Longrightarrow> awaited (shuts q) = Some x \<Longrightarrow> ErrorLogged (name q) x \<in> set (shutdown_events ps)"
  by (auto simp: shutdown_events_def intro!: bexI[of _ q])

lemma start_cases:
  assumes nb: "\<not> booted s"
  obtains
    (emit_failed) e where "fst (emit ''app:starting'' (bus s)) = Inl e"
  | (sort_failed) e where "fst (emit ''app:starting'' (bus s)) = Inr ()"
      "topologicalSort (providers s) = Inl e"
  | (register_failed) pre p post e where "fst (emit ''app:starting'' (bus s)) = Inr ()"
      "topologicalSort (providers s) = Inr (pre @ p # post)"
      "\<forall>q \<in> set pre. called (registers q) = None" "called (registers p) = Some e"
  | (boot_failed) pre p post e where "fst (emit ''app:starting'' (bus s)) = Inr ()"
      "topologicalSort (providers s) = Inr (pre @ p # post)"
      "\<forall>q \<in> set (pre @ p # post). called (registers q) = None"
      "\<forall>q \<in> set pre. awaited (boots q) = None" "awaited (boots p) = Some e"
  | (all_booted) sorted' where "fst (emit ''app:starting'' (bus s)) = Inr ()"
      "topologicalSort (providers s) = Inr sorted'"
      "\<forall>q \<in> set sorted'. called (registers q) = None"
      "\<forall>q \<in> set sorted'. awaited (boots q) = None"
proof (cases "fst (emit ''app:starting'' (bus s))")
  case (Inl e)
  then show ?thesis by (rule emit_failed)
next
  case (Inr u)
  then have ok: "fst (emit ''app:starting'' (bus s)) = Inr ()" by simp
  show ?thesis
  proof (cases "topologicalSort (providers s)")
    case (Inl e)
    with ok show ?thesis by (rule sort_failed)
  next
    case so: (Inr sorted')
    show ?thesis
    proof (cases "\<exists>q \<in> set sorted'. called (registers q) \<noteq> None")
      case True
      from split_list_first_prop[OF True] obtain pre p post where
        d: "sorted' = pre @ p # post" "called (registers p) \<noteq> None"
        "\<forall>q \<in> set pre. \<not> called (registers q) \<noteq> None" by blast
      then obtain e where "called (registers p) = Some e" by auto
      with d so ok show ?thesis by (intro register_failed[of pre p post e]) auto
    next
      case False
      then have rok: "\<forall>q \<in> set sorted'. called (registers q) = None" by simp
      show ?thesis
      proof (cases "\<exists>q \<in> set sorted'. awaited (boots q) \<noteq> None")
        case True
        from split_list_first_prop[OF True] obtain pre p post where
          d: "sorted' = pre @ p # post" "awaited (boots p) \<noteq> None"
          "\<forall>q \<in> set pre. \<not> awaited (boots q) \<noteq> None" by blast
        then obtain e where "awaited (boots p) = Some e" by auto
        with d so ok rok show ?thesis by (intro boot_failed[of pre p post e]) auto
      next
        case False
        then have "\<forall>q \<in> set sorted'. awaited (boots q) = None" by simp
        with so ok rok show ?thesis by (intro all_booted[of sorted']) auto
      qed
    qed
  qed
qed

text \<open>
  Claim C2. Let \<^verbatim>\<open>start\<close> reach the boot phase on an application that has booted nothing,
  and let \<open>p\<close> be the first provider of the sorted order whose \<^verbatim>\<open>boot\<close> throws, with error
  \<open>e\<close>. Then \<^verbatim>\<open>start\<close> throws \<open>e\<close> itself; \<^verbatim>\<open>boot\<close> has been called on the providers before \<open>p\<close>
  and on \<open>p\<close>, and on no provider after \<open>p\<close>; \<^verbatim>\<open>shutdown\<close> has been called on exactly the
  providers that completed \<^verbatim>\<open>boot\<close>, in the reverse of that order, every error of such a
  call being logged and none stopping the rollback; and the application is not booted.
\<close>

theorem boot_failure_rolls_back:
  assumes "\<not> booted s" and "bootedProviders s = []"
    and "fst (emit ''app:starting'' (bus s)) = Inr ()"
    and "topologicalSort (providers s) = Inr (pre @ p # post)"
    and "\<forall>q \<in> set (pre @ p # post). called (registers q) = None"
    and "\<forall>q \<in> set pre. awaited (boots q) = None"
    and "awaited (boots p) = Some e"
  shows "fst (start s) = Inl (Thrown e)
       \<and> trace (snd (start s))
           = trace s @ register_events (pre @ p # post) @ boot_events pre
               @ [BootCalled (name p)] @ shutdown_events (rev pre)
       \<and> boot_calls (drop (length (trace s)) (trace (snd (start s)))) = map name (pre @ [p])
       \<and> (\<forall>q \<in> set post. name q \<notin> set (boot_calls (drop (length (trace s)) (trace (snd (start s))))))
       \<and> completed_boots (drop (length (trace s)) (trace (snd (start s)))) = map name pre
       \<and> shutdown_calls (drop (length (trace s)) (trace (snd (start s)))) = rev (map name pre)
       \<and> (\<forall>q \<in> set pre. \<forall>x. awaited (shuts q) = Some x
            \<longrightarrow> ErrorLogged (name q) x \<in> set (trace (snd (start s))))
       \<and> \<not> booted (snd (start s))
       \<and> bootedProviders (snd (start s)) = []"
proof -
  note st = start_boot_failed[OF assms(1,3,4,5,6,7)]
  have tr: "trace (snd (start s))
           = trace s @ register_events (pre @ p # post) @ boot_events pre
               @ [BootCalled (name p)] @ shutdown_events (rev pre)"
    by (simp add: st assms(2))
  have dr: "drop (length (trace s)) (trace (snd (start s)))
           = register_events (pre @ p # post) @ boot_events pre
               @ [BootCalled (name p)] @ shutdown_events (rev pre)"
    by (simp add: tr)
  have bc: "boot_calls (drop (length (trace s)) (trace (snd (start s)))) = map name (pre @ [p])"
    by (simp add: dr boot_calls_append calls_of_register_events calls_of_boot_events
        boot_calls_shutdown_events)
  from topo_success[OF assms(4)] have "distinct (map name (pre @ p # post))" by simp
  then have np: "\<forall>q \<in> set post. name q \<notin> set (map name (pre @ [p]))"
    by (fastforce simp: image_iff)
  have cb: "completed_boots (drop (length (trace s)) (trace (snd (start s)))) = map name pre"
    by (simp add: dr completed_boots_append calls_of_register_events calls_of_boot_events
        completed_boots_shutdown_events)
  have sc: "shutdown_calls (drop (length (trace s)) (trace (snd (start s)))) = rev (map name pre)"
    by (simp add: dr shutdown_calls_append calls_of_register_events calls_of_boot_events
        shutdown_calls_events rev_map)
  have el: "\<forall>q \<in> set pre. \<forall>x. awaited (shuts q) = Some x
            \<longrightarrow> ErrorLogged (name q) x \<in> set (trace (snd (start s)))"
    using error_logged[of _ "rev pre"] by (simp add: tr)
  have np': "\<forall>q \<in> set post. name q \<notin> set (boot_calls (drop (length (trace s)) (trace (snd (start s)))))"
    using np by (simp only: bc)
  have res: "fst (start s) = Inl (Thrown e)" by (simp add: st)
  have nbk: "\<not> booted (snd (start s))" using assms(1) by (simp add: st)
  have bp: "bootedProviders (snd (start s)) = []" by (simp add: st)
  show ?thesis using res tr bc np' cb sc el nbk bp by blast
qed

lemma topo_demo:
  "topologicalSort [auth, db, cfg] = Inr [cfg, db, auth]"
  by (simp add: topologicalSort_def init_graph_def initial_queue_def cfg_def db_def auth_def)

theorem boot_failure_rolls_back_witness:
  "fst (start ((new_application new_emitter)\<lparr>providers := [auth, db, cfg]\<rparr>)) = Inl (Thrown ''no connection'')
   \<and> trace (snd (start ((new_application new_emitter)\<lparr>providers := [auth, db, cfg]\<rparr>)))
       = [RegisterCalled ''config'', RegisterCalled ''database'', RegisterCalled ''auth'',
          BootCalled ''config'', BootCompleted ''config'', BootCalled ''database'',
          ShutdownCalled ''config'']
   \<and> \<not> booted (snd (start ((new_application new_emitter)\<lparr>providers := [auth, db, cfg]\<rparr>)))"
proof -
  let ?s = "(new_application new_emitter)\<lparr>providers := [auth, db, cfg]\<rparr>"
  have 1: "\<not> booted ?s" "bootedProviders ?s = []" "trace ?s = []"
    by (simp_all add: new_application_def)
  have 2: "fst (emit ''app:starting'' (bus ?s)) = Inr ()"
    by (simp add: new_application_def new_emitter_def emit_def)
  have 3: "topologicalSort (providers ?s) = Inr ([cfg] @ db # [auth])"
    using topo_demo by simp
  have 4: "\<forall>q \<in> set ([cfg] @ db # [auth]). called (registers q) = None"
    by (simp add: cfg_def db_def auth_def)
  have 5: "\<forall>q \<in> set [cfg]. awaited (boots q) = None" by (simp add: cfg_def)
  have 6: "awaited (boots db) = Some ''no connection''" by (simp add: db_def)
  from boot_failure_rolls_back[OF 1(1,2) 2 3 4 5 6] 1(3)
  show ?thesis
    by (simp add: register_events_def boot_events_def shutdown_events_def cfg_def db_def auth_def)
qed

lemma failing_bus_listeners:
  "listeners failing_bus = [''app:shutdown'' \<mapsto> [Listener 1 (Throws ''boom'')]]"
  "once_marks failing_bus = {}"
  by (simp_all add: failing_bus_def on_def new_emitter_def set_add_def)

lemma topo_cfg: "topologicalSort [cfg] = Inr [cfg]"
  by (simp add: topologicalSort_def init_graph_def initial_queue_def cfg_def)

lemma wedged_app_started:
  "fst (start wedged_app) = Inr ()"
  "booted (snd (start wedged_app))"
  "bootedProviders (snd (start wedged_app)) = [cfg]"
  "\<not> shuttingDown (snd (start wedged_app))"
  "bus (snd (start wedged_app)) = failing_bus"
  "trace (snd (start wedged_app))
     = [RegisterCalled ''config'', BootCalled ''config'', BootCompleted ''config'']"
  by (simp_all add: start_def publish_def emit_def wedged_app_def new_application_def
      failing_bus_listeners topo_cfg[unfolded cfg_def] observe_def installSignalHandlers_def cfg_def)

text \<open>
  Claim C9. If a subscriber of the shutdown event throws, \<^verbatim>\<open>shutdown\<close> throws the error of
  the first such subscriber. The shutting-down flag is then set and stays set, no timer
  was started and no provider's \<^verbatim>\<open>shutdown\<close> was called: the trace and the booted list are
  unchanged. Every later \<^verbatim>\<open>shutdown\<close> returns at once and changes nothing, and so does
  every later \<^verbatim>\<open>start\<close> of a booted application: the booted providers are never torn down.
\<close>

theorem shutdown_listener_failure_wedges:
  assumes "\<not> shuttingDown s"
    and "listeners (bus s) ''app:shutdown'' = Some (pre @ fn # post)"
    and "\<forall>g \<in> set pre. awaited (ending g) = None"
    and "awaited (ending fn) = Some e"
  shows "fst (shutdown s) = Inl (Thrown e)
       \<and> shuttingDown (snd (shutdown s))
       \<and> trace (snd (shutdown s)) = trace s
       \<and> bootedProviders (snd (shutdown s)) = bootedProviders s
       \<and> booted (snd (shutdown s)) = booted s
       \<and> shutdown (snd (shutdown s)) = (Inr (), snd (shutdown s))
       \<and> (booted s \<longrightarrow> start (snd (shutdown s)) = (Inr (), snd (shutdown s)))"
proof -
  from emit_first_failure[OF assms(2,3,4)]
  have f: "fst (emit ''app:shutdown'' (bus s)) = Inl (Thrown e)" .
  have eq: "shutdown s = (Inl (Thrown e), s\<lparr>shuttingDown := True, bus := snd (emit ''app:shutdown'' (bus s))\<rparr>)"
    using assms(1) f by (simp add: shutdown_def publish_eq)
  show ?thesis
    by (simp add: eq) (simp add: shutdown_def start_def)
qed

theorem shutdown_listener_failure_wedges_witness:
  "fst (shutdown (snd (start wedged_app))) = Inl (Thrown ''boom'')
   \<and> shuttingDown (snd (shutdown (snd (start wedged_app))))
   \<and> trace (snd (shutdown (snd (start wedged_app)))) = trace (snd (start wedged_app))
   \<and> bootedProviders (snd (shutdown (snd (start wedged_app)))) = [cfg]
   \<and> shutdown (snd (shutdown (snd (start wedged_app))))
       = (Inr (), snd (shutdown (snd (start wedged_app))))
   \<and> start (snd (shutdown (snd (start wedged_app))))
       = (Inr (), snd (shutdown (snd (start wedged_app))))"
proof -
  let ?s = "snd (start wedged_app)"
  have 1: "\<not> shuttingDown ?s" by (rule wedged_app_started)
  have 2: "listeners (bus ?s) ''app:shutdown'' = Some ([] @ Listener 1 (Throws ''boom'') # [])"
    by (simp add: wedged_app_started failing_bus_listeners)
  have 3: "\<forall>g \<in> set []. awaited (ending g) = None" by simp
  have 4: "awaited (ending (Listener 1 (Throws ''boom''))) = Some ''boom''" by simp
  from shutdown_listener_failure_wedges[OF 1 2 3 4] wedged_app_started(2,3)
  show ?thesis by simp
qed

text \<open>
  Claim C3, as amended. When \<^verbatim>\<open>shutdown\<close> is called while no shutdown is in progress and
  publishing the shutdown event does not throw, it calls \<^verbatim>\<open>shutdown\<close> on exactly the booted
  providers, in the reverse of the order in which they completed \<^verbatim>\<open>boot\<close>; an error of one
  of these calls is logged and every remaining provider is still called; afterwards no
  provider is booted and both flags are reset. The booted list of a started application
  is the list of providers that completed \<^verbatim>\<open>boot\<close>, in that order.
\<close>

theorem shutdown_visits_booted_in_reverse:
  assumes "\<not> shuttingDown s" and "fst (emit ''app:shutdown'' (bus s)) = Inr ()"
  shows "trace (snd (shutdown s))
           = trace s @ [TimerStarted] @ shutdown_events (rev (bootedProviders s)) @ [TimerCleared]
       \<and> shutdown_calls (drop (length (trace s)) (trace (snd (shutdown s))))
           = rev (map name (bootedProviders s))
       \<and> (\<forall>p \<in> set (bootedProviders s). \<forall>e. awaited (shuts p) = Some e
            \<longrightarrow> ErrorLogged (name p) e \<in> set (trace (snd (shutdown s))))
       \<and> bootedProviders (snd (shutdown s)) = []
       \<and> \<not> booted (snd (shutdown s))
       \<and> \<not> shuttingDown (snd (shutdown s))
       \<and> (\<forall>s0. \<not> booted s0 \<and> bootedProviders s0 = [] \<and> booted (snd (start s0)) \<longrightarrow>
            map name (bootedProviders (snd (start s0)))
              = completed_boots (drop (length (trace s0)) (trace (snd (start s0)))))"
proof -
  let ?s1 = "s\<lparr>shuttingDown := True, bus := snd (emit ''app:shutdown'' (bus s))\<rparr>"
  let ?s3 = "?s1\<lparr>trace := trace s @ [TimerStarted] @ shutdown_events (rev (bootedProviders s)) @ [TimerCleared],
                  bootedProviders := [], signalHandlers := 0, booted := False, shuttingDown := False\<rparr>"
  have eq: "shutdown s = publish ''app:terminated'' ?s3"
    using assms
    by (simp add: shutdown_def publish_eq shutdownProviders_eq observe_def removeSignalHandlers_def Let_def)
  have tr: "trace (snd (shutdown s))
           = trace s @ [TimerStarted] @ shutdown_events (rev (bootedProviders s)) @ [TimerCleared]"
    by (simp add: eq publish_eq)
  have sc: "shutdown_calls (drop (length (trace s)) (trace (snd (shutdown s))))
           = rev (map name (bootedProviders s))"
    by (simp add: tr shutdown_calls_append shutdown_calls_events rev_map)
  have el: "\<forall>p \<in> set (bootedProviders s). \<forall>e. awaited (shuts p) = Some e
            \<longrightarrow> ErrorLogged (name p) e \<in> set (trace (snd (shutdown s)))"
    using error_logged[of _ "rev (bootedProviders s)"] by (simp add: tr)
  have fl: "bootedProviders (snd (shutdown s)) = []" "\<not> booted (snd (shutdown s))"
    "\<not> shuttingDown (snd (shutdown s))"
    by (simp_all add: eq publish_eq)
  have link: "\<forall>s0. \<not> booted s0 \<and> bootedProviders s0 = [] \<and> booted (snd (start s0)) \<longrightarrow>
            map name (bootedProviders (snd (start s0)))
              = completed_boots (drop (length (trace s0)) (trace (snd (start s0))))"
  proof (intro allI impI)
    fix s0 assume a: "\<not> booted s0 \<and> bootedProviders s0 = [] \<and> booted (snd (start s0))"
    then have nb: "\<not> booted s0" and bp: "bootedProviders s0 = []" and bk: "booted (snd (start s0))"
      by auto
    from nb show "map name (bootedProviders (snd (start s0)))
              = completed_boots (drop (length (trace s0)) (trace (snd (start s0))))"
    proof (cases rule: start_cases)
      case (emit_failed e)
      with bk nb show ?thesis by (simp add: start_emit_failed)
    next
      case (sort_failed e)
      with bk nb show ?thesis by (simp add: start_sort_failed)
    next
      case (register_failed pre p post e)
      with bk nb start_register_failed[OF nb register_failed] show ?thesis by simp
    next
      case (boot_failed pre p post e)
      with bk nb start_boot_failed[OF nb boot_failed] show ?thesis by simp
    next
      case (all_booted sorted')
      from start_booted[OF nb all_booted] obtain cbs where
        "trace (snd (start s0))
           = trace s0 @ register_events sorted' @ boot_events sorted' @ map CallbackCalled cbs"
        "bootedProviders (snd (start s0)) = bootedProviders s0 @ sorted'" by blast
      then show ?thesis
        by (simp add: bp completed_boots_append calls_of_register_events calls_of_boot_events
            calls_of_callbacks)
    qed
  qed
  show ?thesis using tr sc el fl link by blast
qed

theorem shutdown_visits_booted_in_reverse_witness:
  "trace (snd (shutdown ((new_application new_emitter)
       \<lparr>providers := [cfg, auth], bootedProviders := [cfg, auth\<lparr>shuts := Throws ''stuck''\<rparr>], booted := True\<rparr>)))
     = [TimerStarted, ShutdownCalled ''auth'', ErrorLogged ''auth'' ''stuck'',
        ShutdownCalled ''config'', TimerCleared]
   \<and> bootedProviders (snd (shutdown ((new_application new_emitter)
       \<lparr>providers := [cfg, auth], bootedProviders := [cfg, auth\<lparr>shuts := Throws ''stuck''\<rparr>], booted := True\<rparr>))) = []"
proof -
  let ?s = "(new_application new_emitter)
       \<lparr>providers := [cfg, auth], bootedProviders := [cfg, auth\<lparr>shuts := Throws ''stuck''\<rparr>], booted := True\<rparr>"
  have 1: "\<not> shuttingDown ?s" by (simp add: new_application_def)
  have 2: "fst (emit ''app:shutdown'' (bus ?s)) = Inr ()"
    by (simp add: new_application_def new_emitter_def emit_def)
  have 3: "trace ?s = []" by (simp add: new_application_def)
  from shutdown_visits_booted_in_reverse[OF 1 2] 3
  show ?thesis by (simp add: shutdown_events_def cfg_def auth_def)
qed

text \<open>
  Claim C3 as stated fails when a subscriber of the shutdown event throws: the
  application is booted with one provider, no shutdown is in progress, and \<^verbatim>\<open>shutdown\<close>
  calls the \<^verbatim>\<open>shutdown\<close> of no provider and leaves the provider booted.
\<close>

theorem shutdown_skipped_counterexample:
  "booted (snd (start wedged_app))
   \<and> bootedProviders (snd (start wedged_app)) = [cfg]
   \<and> \<not> shuttingDown (snd (start wedged_app))
   \<and> shutdown_calls (trace (snd (shutdown (snd (start wedged_app))))) = []
   \<and> bootedProviders (snd (shutdown (snd (start wedged_app)))) = [cfg]"
proof -
  let ?s = "snd (start wedged_app)"
  have "listeners (bus ?s) ''app:shutdown'' = Some [Listener 1 (Throws ''boom'')]"
    by (simp add: wedged_app_started failing_bus_listeners)
  then have f: "fst (emit ''app:shutdown'' (bus ?s)) = Inl (Thrown ''boom'')"
    by (simp add: emit_result settled_def)
  have "shutdown ?s = (Inl (Thrown ''boom''),
          ?s\<lparr>shuttingDown := True, bus := snd (emit ''app:shutdown'' (bus ?s))\<rparr>)"
    using wedged_app_started(4) f by (simp add: shutdown_def publish_eq)
  then show ?thesis by (simp add: wedged_app_started)
qed

lemma boot_called_in_calls: "BootCalled n \<in> set t \<Longrightarrow> n \<in> set (boot_calls t)"
  by (induction t rule: boot_calls.induct) auto

lemma split_after_prefix:
  "xs @ ys = t1 @ e # t2 \<Longrightarrow> e \<notin> set xs \<Longrightarrow> \<exists>t1'. t1 = xs @ t1' \<and> ys = t1' @ e # t2"
proof (induction xs arbitrary: t1)
  case Nil
  then show ?case by simp
next
  case (Cons x xs)
  show ?case
  proof (cases t1)
    case Nil
    with Cons.prems show ?thesis by simp
  next
    case (Cons y t1')
    with Cons.prems have "xs @ ys = t1' @ e # t2" "e \<notin> set xs" "x = y" by auto
    with Cons.IH[of t1'] Cons show ?thesis by auto
  qed
qed

lemma boot_events_Cons:
  "boot_events (q # qs) = BootCalled (name q) # BootCompleted (name q) # boot_events qs"
  by (simp add: boot_events_def)

lemma split_boot_events:
  "boot_events ps @ rest = t1 @ BootCalled n # t2 \<Longrightarrow>
   (\<exists>i < length ps. n = name (ps ! i) \<and> t1 = boot_events (take i ps))
   \<or> (\<exists>t1'. t1 = boot_events ps @ t1' \<and> rest = t1' @ BootCalled n # t2)"
proof (induction ps arbitrary: t1)
  case Nil
  then show ?case by (simp add: boot_events_def)
next
  case (Cons q qs)
  show ?case
  proof (cases t1)
    case Nil
    with Cons.prems have "n = name q" by (simp add: boot_events_Cons)
    with Nil show ?thesis by (auto simp: boot_events_def)
  next
    case c1: (Cons x u)
    show ?thesis
    proof (cases u)
      case Nil
      with c1 Cons.prems show ?thesis by (simp add: boot_events_Cons)
    next
      case c2: (Cons y v)
      with c1 Cons.prems have e: "boot_events qs @ rest = v @ BootCalled n # t2"
        and xy: "x = BootCalled (name q)" "y = BootCompleted (name q)"
        by (simp_all add: boot_events_Cons)
      from Cons.IH[OF e] show ?thesis
      proof
        assume "\<exists>i<length qs. n = name (qs ! i) \<and> v = boot_events (take i qs)"
        then obtain i where i: "i < length qs" "n = name (qs ! i)" "v = boot_events (take i qs)"
          by blast
        have "Suc i < length (q # qs)" "n = name ((q # qs) ! Suc i)"
          "t1 = boot_events (take (Suc i) (q # qs))"
          using i c1 c2 xy by (simp_all add: boot_events_Cons)
        then show ?thesis by blast
      next
        assume "\<exists>t1'. v = boot_events qs @ t1' \<and> rest = t1' @ BootCalled n # t2"
        then obtain t1' where "v = boot_events qs @ t1'" "rest = t1' @ BootCalled n # t2" by blast
        then have "t1 = boot_events (q # qs) @ t1'" using c1 c2 xy by (simp add: boot_events_Cons)
        with \<open>rest = t1' @ BootCalled n # t2\<close> show ?thesis by blast
      qed
    qed
  qed
qed

lemma boot_position:
  assumes nb: "\<not> booted s" and bp: "bootedProviders s = []"
    and ok: "fst (emit ''app:starting'' (bus s)) = Inr ()"
    and so: "topologicalSort (providers s) = Inr sorted'"
    and sp: "drop (length (trace s)) (trace (snd (start s))) = t1 @ BootCalled n # t2"
  shows "\<exists>i < length sorted'. n = name (sorted' ! i)
           \<and> t1 = register_events sorted' @ boot_events (take i sorted')"
proof -
  have nr: "BootCalled n \<notin> set (register_events ps)" for ps
    by (auto simp: register_events_def)
  from nb show ?thesis
  proof (cases rule: start_cases)
    case (emit_failed e)
    with ok show ?thesis by simp
  next
    case (sort_failed e)
    with so show ?thesis by simp
  next
    case (register_failed pre p post e)
    from start_register_failed[OF nb register_failed] sp
    have "register_events (pre @ [p]) = t1 @ BootCalled n # t2" by simp
    then have "BootCalled n \<in> set (register_events (pre @ [p]))" by simp
    with nr show ?thesis by blast
  next
    case (boot_failed pre p post e)
    with so have s': "sorted' = pre @ p # post" by simp
    from start_boot_failed[OF nb boot_failed] sp bp
    have "register_events sorted' @ (boot_events pre @ BootCalled (name p) # shutdown_events (rev pre))
            = t1 @ BootCalled n # t2" by (simp add: s')
    from split_after_prefix[OF this nr] obtain u where
      u: "t1 = register_events sorted' @ u"
      "boot_events pre @ BootCalled (name p) # shutdown_events (rev pre) = u @ BootCalled n # t2"
      by blast
    from split_boot_events[OF u(2)] show ?thesis
    proof
      assume "\<exists>i<length pre. n = name (pre ! i) \<and> u = boot_events (take i pre)"
      then obtain i where "i < length pre" "n = name (pre ! i)" "u = boot_events (take i pre)" by blast
      then have "i < length sorted'" "n = name (sorted' ! i)"
        "t1 = register_events sorted' @ boot_events (take i sorted')"
        using u(1) s' by (simp_all add: nth_append)
      then show ?thesis by blast
    next
      assume "\<exists>w. u = boot_events pre @ w
                \<and> BootCalled (name p) # shutdown_events (rev pre) = w @ BootCalled n # t2"
      then obtain w where w: "u = boot_events pre @ w"
        "BootCalled (name p) # shutdown_events (rev pre) = w @ BootCalled n # t2" by blast
      have "w = []"
      proof (cases w)
        case Nil then show ?thesis .
      next
        case (Cons a w')
        with w(2) have "shutdown_events (rev pre) = w' @ BootCalled n # t2" by simp
        then have "BootCalled n \<in> set (shutdown_events (rev pre))" by simp
        from boot_called_in_calls[OF this] show ?thesis by (simp add: boot_calls_shutdown_events)
      qed
      with w have "n = name p" "u = boot_events pre" by simp_all
      then have "length pre < length sorted'" "n = name (sorted' ! length pre)"
        "t1 = register_events sorted' @ boot_events (take (length pre) sorted')"
        using u(1) s' by simp_all
      then show ?thesis by blast
    qed
  next
    case (all_booted srt)
    with so have s': "srt = sorted'" by simp
    from start_booted[OF nb all_booted] obtain cbs where
      "trace (snd (start s))
         = trace s @ register_events srt @ boot_events srt @ map CallbackCalled cbs" by blast
    with sp s' have "register_events sorted' @ (boot_events sorted' @ map CallbackCalled cbs)
            = t1 @ BootCalled n # t2" by simp
    from split_after_prefix[OF this nr] obtain u where
      u: "t1 = register_events sorted' @ u"
      "boot_events sorted' @ map CallbackCalled cbs = u @ BootCalled n # t2" by blast
    from split_boot_events[OF u(2)] show ?thesis
    proof
      assume "\<exists>i<length sorted'. n = name (sorted' ! i) \<and> u = boot_events (take i sorted')"
      with u(1) show ?thesis by blast
    next
      assume "\<exists>w. u = boot_events sorted' @ w \<and> map CallbackCalled cbs = w @ BootCalled n # t2"
      then obtain w where "map CallbackCalled cbs = w @ BootCalled n # t2" by blast
      then have "BootCalled n \<in> set (map CallbackCalled cbs)" by simp
      then show ?thesis by auto
    qed
  qed
qed

lemma boot_completed_member:
  "q \<in> set ps \<Longrightarrow> BootCompleted (name q) \<in> set (boot_events ps)"
  by (induction ps) (auto simp: boot_events_Cons)

lemma topo_demo_ok:
  "topologicalSort [auth, db\<lparr>boots := Returns\<rparr>, cfg] = Inr [cfg, db\<lparr>boots := Returns\<rparr>, auth]"
  by (simp add: topologicalSort_def init_graph_def initial_queue_def cfg_def db_def auth_def)

lemma dep_rel_cong: "set out = set ps \<Longrightarrow> dep_rel out = dep_rel ps"
  by (auto simp: dep_rel_iff)

lemma sorted_acyclic:
  assumes "topologicalSort ps = Inr out"
  shows "acyclic (dep_rel ps)"
proof -
  from topo_success[OF assms] have "set out = set ps" "distinct (map name out)" "deps_before out"
    by simp_all
  from order_acyclic[OF this(2,3)] dep_rel_cong[OF this(1)] show ?thesis by simp
qed

lemma two_cycle_reaches:
  assumes "dependencies a = [name b]" "dependencies b = [name a]"
  shows "reaches_cycle [a, b] (name a)" "reaches_cycle [a, b] (name b)"
proof -
  have e: "(name a, name b) \<in> dep_rel [a, b]" "(name b, name a) \<in> dep_rel [a, b]"
    using assms by (auto simp: dep_rel_iff)
  then have "(name a, name a) \<in> (dep_rel [a, b])\<^sup>+" "(name b, name b) \<in> (dep_rel [a, b])\<^sup>+"
    by (meson trancl.intros)+
  then show "reaches_cycle [a, b] (name a)" "reaches_cycle [a, b] (name b)"
    by (auto simp: reaches_cycle_def)
qed

text \<open>
  Claim C8. Let \<^verbatim>\<open>start\<close> reach the sorted order on an application that has booted nothing.
  Whenever \<^verbatim>\<open>boot\<close> is called on a provider, \<^verbatim>\<open>register\<close> has already been called on every
  provider, in the sorted order, and the providers before it in the sorted order have each
  been booted to completion, one after the other and in that order; among them are all the
  dependencies of the provider. If no \<^verbatim>\<open>register\<close> throws, the calls of \<^verbatim>\<open>register\<close> come first
  in the run; if moreover no \<^verbatim>\<open>boot\<close> fails, the run is all the registrations, then all the
  boots, each completed before the next begins, then the callbacks.
\<close>

theorem start_registers_then_boots_in_order:
  assumes "\<not> booted s" and "bootedProviders s = []"
    and "fst (emit ''app:starting'' (bus s)) = Inr ()"
    and "topologicalSort (providers s) = Inr sorted'"
  shows "(\<forall>t1 n t2. drop (length (trace s)) (trace (snd (start s))) = t1 @ BootCalled n # t2 \<longrightarrow>
           (\<exists>i < length sorted'. n = name (sorted' ! i)
              \<and> t1 = register_events sorted' @ boot_events (take i sorted')
              \<and> (\<forall>d \<in> set (dependencies (sorted' ! i)). BootCompleted d \<in> set t1)))
       \<and> ((\<forall>q \<in> set sorted'. called (registers q) = None) \<longrightarrow>
            (\<exists>rest. drop (length (trace s)) (trace (snd (start s))) = register_events sorted' @ rest))
       \<and> ((\<forall>q \<in> set sorted'. called (registers q) = None)
            \<and> (\<forall>q \<in> set sorted'. awaited (boots q) = None) \<longrightarrow>
            (\<exists>cbs. drop (length (trace s)) (trace (snd (start s)))
               = register_events sorted' @ boot_events sorted' @ map CallbackCalled cbs))"
proof (intro conjI allI impI)
  fix t1 n t2
  assume sp: "drop (length (trace s)) (trace (snd (start s))) = t1 @ BootCalled n # t2"
  from boot_position[OF assms sp] obtain i where i: "i < length sorted'" "n = name (sorted' ! i)"
    "t1 = register_events sorted' @ boot_events (take i sorted')" by blast
  from topo_success[OF assms(4)] have db: "deps_before sorted'" by simp
  have "\<forall>d \<in> set (dependencies (sorted' ! i)). BootCompleted d \<in> set t1"
  proof
    fix d assume "d \<in> set (dependencies (sorted' ! i))"
    with db i(1) obtain j where j: "j < i" "name (sorted' ! j) = d"
      by (auto simp: deps_before_def)
    then have "sorted' ! j \<in> set (take i sorted')"
      using i(1) by (auto simp: in_set_conv_nth intro!: exI[of _ j])
    from boot_completed_member[OF this] j(2) i(3) show "BootCompleted d \<in> set t1" by simp
  qed
  with i show "\<exists>i < length sorted'. n = name (sorted' ! i)
              \<and> t1 = register_events sorted' @ boot_events (take i sorted')
              \<and> (\<forall>d \<in> set (dependencies (sorted' ! i)). BootCompleted d \<in> set t1)" by blast
next
  assume rok: "\<forall>q \<in> set sorted'. called (registers q) = None"
  from assms(1) show "\<exists>rest. drop (length (trace s)) (trace (snd (start s))) = register_events sorted' @ rest"
  proof (cases rule: start_cases)
    case (emit_failed e)
    with assms(3) show ?thesis by simp
  next
    case (sort_failed e)
    with assms(4) show ?thesis by simp
  next
    case (register_failed pre p post e)
    with assms(4) rok show ?thesis by auto
  next
    case (boot_failed pre p post e)
    from start_boot_failed[OF assms(1) boot_failed] boot_failed(2) assms(4) show ?thesis by simp
  next
    case (all_booted srt)
    from start_booted[OF assms(1) all_booted] all_booted(2) assms(4) show ?thesis by auto
  qed
next
  assume ok: "(\<forall>q \<in> set sorted'. called (registers q) = None)
            \<and> (\<forall>q \<in> set sorted'. awaited (boots q) = None)"
  from start_booted[OF assms(1,3,4)] ok
  show "\<exists>cbs. drop (length (trace s)) (trace (snd (start s)))
               = register_events sorted' @ boot_events sorted' @ map CallbackCalled cbs" by auto
qed

theorem start_registers_then_boots_in_order_witness:
  "\<exists>cbs. trace (snd (start ((new_application new_emitter)
            \<lparr>providers := [auth, db\<lparr>boots := Returns\<rparr>, cfg]\<rparr>)))
     = [RegisterCalled ''config'', RegisterCalled ''database'', RegisterCalled ''auth'',
        BootCalled ''config'', BootCompleted ''config'',
        BootCalled ''database'', BootCompleted ''database'',
        BootCalled ''auth'', BootCompleted ''auth''] @ map CallbackCalled cbs"
proof -
  let ?ps = "[auth, db\<lparr>boots := Returns\<rparr>, cfg]"
  let ?s = "(new_application new_emitter)\<lparr>providers := ?ps\<rparr>"
  let ?o = "[cfg, db\<lparr>boots := Returns\<rparr>, auth]"
  have 1: "\<not> booted ?s" "bootedProviders ?s = []" "trace ?s = []"
    by (simp_all add: new_application_def)
  have 2: "fst (emit ''app:starting'' (bus ?s)) = Inr ()"
    by (simp add: new_application_def new_emitter_def emit_def)
  have 3: "topologicalSort (providers ?s) = Inr ?o" using topo_demo_ok by simp
  have 4: "(\<forall>q \<in> set ?o. called (registers q) = None) \<and> (\<forall>q \<in> set ?o. awaited (boots q) = None)"
    by (simp add: cfg_def db_def auth_def)
  from start_registers_then_boots_in_order[OF 1(1,2) 2 3] 4
  obtain cbs where "drop (length (trace ?s)) (trace (snd (start ?s)))
               = register_events ?o @ boot_events ?o @ map CallbackCalled cbs" by blast
  then have "trace (snd (start ?s))
     = [RegisterCalled ''config'', RegisterCalled ''database'', RegisterCalled ''auth'',
        BootCalled ''config'', BootCompleted ''config'',
        BootCalled ''database'', BootCompleted ''database'',
        BootCalled ''auth'', BootCompleted ''auth''] @ map CallbackCalled cbs"
    using 1(3) by (simp add: register_events_def boot_events_def cfg_def db_def auth_def)
  then show ?thesis by blast
qed

text \<open>
  Claim C1. For providers with distinct names whose dependencies are all registered and whose
  dependency graph has no cycle, \<^verbatim>\<open>topologicalSort\<close> returns an order that lists every
  provider exactly once and places every dependency of a provider before that provider; and
  \<^verbatim>\<open>start\<close> calls \<^verbatim>\<open>boot\<close> on the providers along a prefix of that order, on all of it, each
  boot completed, when \<^verbatim>\<open>start\<close> returns.
\<close>

theorem start_boots_in_dependency_order:
  assumes "distinct (map name ps)" and "known_deps ps" and "acyclic (dep_rel ps)"
  shows "\<exists>order. topologicalSort ps = Inr order
      \<and> distinct order \<and> set order = set ps
      \<and> (\<forall>i < length order. \<forall>d \<in> set (dependencies (order ! i)). \<exists>j < i. name (order ! j) = d)
      \<and> (\<forall>s. providers s = ps \<and> \<not> booted s \<and> bootedProviders s = [] \<longrightarrow>
            (\<exists>k \<le> length order.
               boot_calls (drop (length (trace s)) (trace (snd (start s)))) = map name (take k order))
          \<and> (fst (start s) = Inr () \<longrightarrow>
               boot_calls (drop (length (trace s)) (trace (snd (start s)))) = map name order
             \<and> completed_boots (drop (length (trace s)) (trace (snd (start s)))) = map name order))"
proof -
  from topo_acyclic[OF assms] obtain order where so: "topologicalSort ps = Inr order" by blast
  from topo_success[OF so] have pr: "set order = set ps" "distinct (map name order)" "deps_before order"
    by simp_all
  have d: "distinct order" using pr(2) by (rule distinct_names_distinct)
  have ix: "\<forall>i < length order. \<forall>d \<in> set (dependencies (order ! i)). \<exists>j < i. name (order ! j) = d"
    using pr(3) by (simp add: deps_before_def)
  have run: "\<forall>s. providers s = ps \<and> \<not> booted s \<and> bootedProviders s = [] \<longrightarrow>
            (\<exists>k \<le> length order.
               boot_calls (drop (length (trace s)) (trace (snd (start s)))) = map name (take k order))
          \<and> (fst (start s) = Inr () \<longrightarrow>
               boot_calls (drop (length (trace s)) (trace (snd (start s)))) = map name order
             \<and> completed_boots (drop (length (trace s)) (trace (snd (start s)))) = map name order)"
  proof (intro allI impI)
    fix s :: application assume a: "providers s = ps \<and> \<not> booted s \<and> bootedProviders s = []"
    then have nb: "\<not> booted s" and bp: "bootedProviders s = []"
      and so': "topologicalSort (providers s) = Inr order" using so by auto
    let ?new = "drop (length (trace s)) (trace (snd (start s)))"
    from nb show "(\<exists>k \<le> length order. boot_calls ?new = map name (take k order))
          \<and> (fst (start s) = Inr () \<longrightarrow>
               boot_calls ?new = map name order \<and> completed_boots ?new = map name order)"
    proof (cases rule: start_cases)
      case (emit_failed e)
      from start_emit_failed[OF nb this] have "?new = []" "fst (start s) = Inl e" by simp_all
      then show ?thesis by (auto intro!: exI[of _ 0])
    next
      case (sort_failed e)
      with so' show ?thesis by simp
    next
      case (register_failed pre p post e)
      from start_register_failed[OF nb this]
      have "?new = register_events (pre @ [p])" "fst (start s) = Inl (Thrown e)" by simp_all
      then show ?thesis by (auto simp: calls_of_register_events intro!: exI[of _ 0])
    next
      case (boot_failed pre p post e)
      with so' have o: "order = pre @ p # post" by simp
      from start_boot_failed[OF nb boot_failed] bp
      have n: "?new = register_events (pre @ p # post) @ boot_events pre
                 @ [BootCalled (name p)] @ shutdown_events (rev pre)"
        and f: "fst (start s) = Inl (Thrown e)" by simp_all
      have "boot_calls ?new = map name (take (Suc (length pre)) order)"
        by (simp add: n o boot_calls_append calls_of_register_events calls_of_boot_events
            boot_calls_shutdown_events)
      moreover have "Suc (length pre) \<le> length order" using o by simp
      ultimately have "\<exists>k \<le> length order. boot_calls ?new = map name (take k order)" by blast
      then show ?thesis using f by simp
    next
      case (all_booted srt)
      with so' have o: "srt = order" by simp
      from start_booted[OF nb all_booted] o obtain cbs where
        n: "?new = register_events order @ boot_events order @ map CallbackCalled cbs" by auto
      have "boot_calls ?new = map name order" "completed_boots ?new = map name order"
        by (simp_all add: n boot_calls_append completed_boots_append calls_of_register_events
            calls_of_boot_events calls_of_callbacks)
      then show ?thesis by (auto intro!: exI[of _ "length order"])
    qed
  qed
  from so d pr(1) ix run show ?thesis by blast
qed

theorem start_boots_in_dependency_order_witness:
  "\<exists>order. topologicalSort [auth, db, cfg] = Inr order \<and> distinct order
      \<and> set order = {auth, db, cfg}
      \<and> boot_calls (trace (snd (start ((new_application new_emitter)
            \<lparr>providers := [auth, db\<lparr>boots := Returns\<rparr>, cfg]\<rparr>))))
          = [''config'', ''database'', ''auth'']"
proof -
  have 1: "distinct (map name [auth, db, cfg])" by (simp add: cfg_def db_def auth_def)
  have 2: "known_deps [auth, db, cfg]" by (simp add: known_deps_def cfg_def db_def auth_def)
  have 3: "acyclic (dep_rel [auth, db, cfg])" by (rule sorted_acyclic[OF topo_demo])
  let ?ps = "[auth, db\<lparr>boots := Returns\<rparr>, cfg]"
  let ?s = "(new_application new_emitter)\<lparr>providers := ?ps\<rparr>"
  have 4: "distinct (map name ?ps)" by (simp add: cfg_def db_def auth_def)
  have 5: "known_deps ?ps" by (simp add: known_deps_def cfg_def db_def auth_def)
  have 6: "acyclic (dep_rel ?ps)" by (rule sorted_acyclic[OF topo_demo_ok])
  have 7: "providers ?s = ?ps \<and> \<not> booted ?s \<and> bootedProviders ?s = []" "trace ?s = []"
    by (simp_all add: new_application_def)
  have 8: "fst (start ?s) = Inr ()"
    by (simp add: start_def publish_def emit_def new_application_def new_emitter_def
        topo_demo_ok[unfolded cfg_def db_def auth_def, simplified] observe_def
        installSignalHandlers_def cfg_def db_def auth_def)
  from start_boots_in_dependency_order[OF 4 5 6] obtain order where
    o: "topologicalSort ?ps = Inr order"
    and r: "\<forall>s. providers s = ?ps \<and> \<not> booted s \<and> bootedProviders s = [] \<longrightarrow>
            (\<exists>k \<le> length order.
               boot_calls (drop (length (trace s)) (trace (snd (start s)))) = map name (take k order))
          \<and> (fst (start s) = Inr () \<longrightarrow>
               boot_calls (drop (length (trace s)) (trace (snd (start s)))) = map name order
             \<and> completed_boots (drop (length (trace s)) (trace (snd (start s)))) = map name order)"
    by blast
  from o topo_demo_ok have oo: "order = [cfg, db\<lparr>boots := Returns\<rparr>, auth]" by simp
  from r[rule_format, OF 7(1)] 8 7(2)
  have b: "boot_calls (trace (snd (start ?s))) = [''config'', ''database'', ''auth'']"
    by (simp add: oo cfg_def db_def auth_def)
  from start_boots_in_dependency_order[OF 1 2 3] obtain order' where
    "topologicalSort [auth, db, cfg] = Inr order'" "distinct order'" "set order' = set [auth, db, cfg]"
    by blast
  with b show ?thesis by auto
qed

text \<open>
  Claim C4, as amended. For providers with distinct names whose dependencies are all
  registered and whose dependency graph has a cycle, \<^verbatim>\<open>topologicalSort\<close> throws the
  circular-dependency error. The error names, in the order of registration, the providers
  that the sort left out; there is at least one, and they are exactly the providers from
  which a cycle can be reached along dependencies. \<^verbatim>\<open>start\<close> on an application that has not
  booted throws, calls neither \<^verbatim>\<open>register\<close> nor \<^verbatim>\<open>boot\<close> on any provider, and leaves the
  application not booted; what it throws is this circular-dependency error when publishing
  the starting event does not throw, and the error of that publication otherwise. For two
  providers that depend on each other the error of the sort, and of \<^verbatim>\<open>start\<close> under the same
  condition, names both.
\<close>

theorem cycle_rejected:
  assumes "distinct (map name ps)" and "known_deps ps" and "\<not> acyclic (dep_rel ps)"
  shows "\<exists>out. set out \<subseteq> set ps \<and> distinct (map name out) \<and> deps_before out
       \<and> (\<forall>p \<in> set ps. (p \<notin> set out) = reaches_cycle ps (name p))
       \<and> filter (\<lambda>p. p \<notin> set out) ps \<noteq> []
       \<and> topologicalSort ps = Inl (CircularDependency (map name (filter (\<lambda>p. p \<notin> set out) ps)))
       \<and> (\<forall>s. providers s = ps \<and> \<not> booted s \<longrightarrow>
             (\<exists>e. fst (start s) = Inl e)
             \<and> trace (snd (start s)) = trace s
             \<and> \<not> booted (snd (start s))
             \<and> (fst (emit ''app:starting'' (bus s)) = Inr () \<longrightarrow>
                  fst (start s)
                    = Inl (CircularDependency (map name (filter (\<lambda>p. p \<notin> set out) ps))))
             \<and> (\<forall>e. fst (emit ''app:starting'' (bus s)) = Inl e \<longrightarrow> fst (start s) = Inl e))
       \<and> (\<forall>a b. ps = [a, b] \<and> dependencies a = [name b] \<and> dependencies b = [name a] \<longrightarrow>
             topologicalSort ps = Inl (CircularDependency [name a, name b])
             \<and> (\<forall>s. providers s = ps \<and> \<not> booted s
                    \<and> fst (emit ''app:starting'' (bus s)) = Inr () \<longrightarrow>
                  fst (start s) = Inl (CircularDependency [name a, name b])))"
proof -
  from topo_cyclic[OF assms] obtain out where o:
    "set out \<subseteq> set ps" "distinct (map name out)" "deps_before out"
    "\<forall>p \<in> set ps. (p \<notin> set out) = reaches_cycle ps (name p)"
    "topologicalSort ps = Inl (CircularDependency (map name (filter (\<lambda>p. p \<notin> set out) ps)))"
    by blast
  let ?err = "CircularDependency (map name (filter (\<lambda>p. p \<notin> set out) ps))"
  from cycle_has_provider[OF assms(3)] o(4) have ne: "filter (\<lambda>p. p \<notin> set out) ps \<noteq> []"
    by (auto simp: filter_empty_conv)
  have run: "\<forall>s. providers s = ps \<and> \<not> booted s \<longrightarrow>
             (\<exists>e. fst (start s) = Inl e)
             \<and> trace (snd (start s)) = trace s
             \<and> \<not> booted (snd (start s))
             \<and> (fst (emit ''app:starting'' (bus s)) = Inr () \<longrightarrow> fst (start s) = Inl ?err)
             \<and> (\<forall>e. fst (emit ''app:starting'' (bus s)) = Inl e \<longrightarrow> fst (start s) = Inl e)"
  proof (intro allI impI)
    fix s :: application assume "providers s = ps \<and> \<not> booted s"
    then have nb: "\<not> booted s" and so: "topologicalSort (providers s) = Inl ?err"
      using o(5) by auto
    show "(\<exists>e. fst (start s) = Inl e)
             \<and> trace (snd (start s)) = trace s
             \<and> \<not> booted (snd (start s))
             \<and> (fst (emit ''app:starting'' (bus s)) = Inr () \<longrightarrow> fst (start s) = Inl ?err)
             \<and> (\<forall>e. fst (emit ''app:starting'' (bus s)) = Inl e \<longrightarrow> fst (start s) = Inl e)"
    proof (cases "fst (emit ''app:starting'' (bus s))")
      case (Inl e)
      from start_emit_failed[OF nb Inl] nb Inl show ?thesis by simp
    next
      case (Inr u)
      then have ok: "fst (emit ''app:starting'' (bus s)) = Inr ()" by simp
      from start_sort_failed[OF nb ok so] nb ok show ?thesis by simp
    qed
  qed
  have two: "\<forall>a b. ps = [a, b] \<and> dependencies a = [name b] \<and> dependencies b = [name a] \<longrightarrow>
             topologicalSort ps = Inl (CircularDependency [name a, name b])
             \<and> (\<forall>s. providers s = ps \<and> \<not> booted s
                    \<and> fst (emit ''app:starting'' (bus s)) = Inr () \<longrightarrow>
                  fst (start s) = Inl (CircularDependency [name a, name b]))"
  proof (intro allI impI)
    fix a b assume h: "ps = [a, b] \<and> dependencies a = [name b] \<and> dependencies b = [name a]"
    with two_cycle_reaches[of a b] o(4) have "a \<notin> set out" "b \<notin> set out" by auto
    with h o(5) have t: "topologicalSort ps = Inl (CircularDependency [name a, name b])" by simp
    have "\<forall>s. providers s = ps \<and> \<not> booted s
                    \<and> fst (emit ''app:starting'' (bus s)) = Inr () \<longrightarrow>
                  fst (start s) = Inl (CircularDependency [name a, name b])"
    proof (intro allI impI)
      fix s :: application
      assume a: "providers s = ps \<and> \<not> booted s \<and> fst (emit ''app:starting'' (bus s)) = Inr ()"
      with t have "topologicalSort (providers s) = Inl (CircularDependency [name a, name b])"
        by simp
      with a start_sort_failed[of s "CircularDependency [name a, name b]"]
      show "fst (start s) = Inl (CircularDependency [name a, name b])" by simp
    qed
    with t show "topologicalSort ps = Inl (CircularDependency [name a, name b])
             \<and> (\<forall>s. providers s = ps \<and> \<not> booted s
                    \<and> fst (emit ''app:starting'' (bus s)) = Inr () \<longrightarrow>
                  fst (start s) = Inl (CircularDependency [name a, name b]))" by blast
  qed
  from o(1,2,3,4) ne o(5) run two show ?thesis by blast
qed

theorem cycle_rejected_witness:
  "topologicalSort [loop_a, loop_b] = Inl (CircularDependency [''a'', ''b''])
   \<and> trace (snd (start ((new_application new_emitter)\<lparr>providers := [loop_a, loop_b]\<rparr>))) = []
   \<and> \<not> booted (snd (start ((new_application new_emitter)\<lparr>providers := [loop_a, loop_b]\<rparr>)))
   \<and> fst (start ((new_application new_emitter)\<lparr>providers := [loop_a, loop_b]\<rparr>))
       = Inl (CircularDependency [''a'', ''b''])"
proof -
  let ?ps = "[loop_a, loop_b]"
  let ?s = "(new_application new_emitter)\<lparr>providers := ?ps\<rparr>"
  have 1: "distinct (map name ?ps)" by (simp add: loop_a_def loop_b_def)
  have 2: "known_deps ?ps" by (simp add: known_deps_def loop_a_def loop_b_def)
  have d: "dependencies loop_a = [name loop_b]" "dependencies loop_b = [name loop_a]"
    by (simp_all add: loop_a_def loop_b_def)
  from two_cycle_reaches[OF d] have "\<exists>c. (c, c) \<in> (dep_rel ?ps)\<^sup>+"
    by (auto simp: reaches_cycle_def)
  then have 3: "\<not> acyclic (dep_rel ?ps)" by (simp add: acyclic_def)
  have 4: "providers ?s = ?ps \<and> \<not> booted ?s" "trace ?s = []"
    "providers ?s = ?ps \<and> \<not> booted ?s \<and> fst (emit ''app:starting'' (bus ?s)) = Inr ()"
    by (simp_all add: new_application_def new_emitter_def emit_def)
  from cycle_rejected[OF 1 2 3] obtain out where
    r: "\<forall>s. providers s = ?ps \<and> \<not> booted s \<longrightarrow>
             (\<exists>e. fst (start s) = Inl e)
             \<and> trace (snd (start s)) = trace s
             \<and> \<not> booted (snd (start s))
             \<and> (fst (emit ''app:starting'' (bus s)) = Inr () \<longrightarrow>
                  fst (start s)
                    = Inl (CircularDependency (map name (filter (\<lambda>p. p \<notin> set out) ?ps))))
             \<and> (\<forall>e. fst (emit ''app:starting'' (bus s)) = Inl e \<longrightarrow> fst (start s) = Inl e)"
    and two: "\<forall>a b. ?ps = [a, b] \<and> dependencies a = [name b] \<and> dependencies b = [name a] \<longrightarrow>
             topologicalSort ?ps = Inl (CircularDependency [name a, name b])
             \<and> (\<forall>s. providers s = ?ps \<and> \<not> booted s
                    \<and> fst (emit ''app:starting'' (bus s)) = Inr () \<longrightarrow>
                  fst (start s) = Inl (CircularDependency [name a, name b]))"
    by blast
  from two d have e: "topologicalSort ?ps = Inl (CircularDependency [name loop_a, name loop_b])"
    and f: "\<forall>s. providers s = ?ps \<and> \<not> booted s
                    \<and> fst (emit ''app:starting'' (bus s)) = Inr () \<longrightarrow>
                  fst (start s) = Inl (CircularDependency [name loop_a, name loop_b])"
    by blast+
  from r[rule_format, OF 4(1)] 4(2) e f[rule_format, OF 4(3)]
  show ?thesis by (simp add: loop_a_def loop_b_def)
qed

text \<open>
  Claim C4 as stated fails when a subscriber of the starting event throws: \<^verbatim>\<open>start\<close>
  publishes that event before it sorts the providers, so on the two providers that depend
  on each other it throws the error of the subscriber, not the circular-dependency error.
\<close>

theorem cycle_masked_counterexample:
  "topologicalSort [loop_a, loop_b] = Inl (CircularDependency [''a'', ''b''])
   \<and> fst (start ((new_application (on ''app:starting'' (Listener 1 (Throws ''boom'')) new_emitter))
                   \<lparr>providers := [loop_a, loop_b]\<rparr>))
       = Inl (Thrown ''boom'')"
proof -
  let ?b = "on ''app:starting'' (Listener 1 (Throws ''boom'')) new_emitter"
  let ?s = "(new_application ?b)\<lparr>providers := [loop_a, loop_b]\<rparr>"
  have l: "listeners ?b ''app:starting'' = Some ([] @ Listener 1 (Throws ''boom'') # [])"
    by (simp add: on_def new_emitter_def set_add_def)
  from emit_first_failure[OF l] have f: "fst (emit ''app:starting'' ?b) = Inl (Thrown ''boom'')"
    by simp
  have nb: "\<not> booted ?s" and bs: "bus ?s = ?b" by (simp_all add: new_application_def)
  from start_emit_failed[OF nb, of "Thrown ''boom''"] f bs
  have r: "fst (start ?s) = Inl (Thrown ''boom'')" by simp
  have t: "topologicalSort [loop_a, loop_b] = Inl (CircularDependency [''a'', ''b''])"
    by (simp add: topologicalSort_def init_graph_def initial_queue_def loop_a_def loop_b_def)
  from t r show ?thesis by simp
qed

section \<open>Properties of the container\<close>
































text \<open>
  A factory that resolves its own key on its first execution only is executed twice by one
  \<^verbatim>\<open>resolve\<close>: the inner call caches and returns the first object, and the outer call then
  replaces it in the cache by the second.
\<close>

lemma reentrant_singleton_overwrites:
  "fst (resolve 1 (Ctor 1) ((singleton (Ctor 1) reentrant new_container)\<lparr>runs := [Ctor 1]\<rparr>)) = Inr 0
   \<and> fst (resolve 2 (Ctor 1) (singleton (Ctor 1) reentrant new_container)) = Inr 1
   \<and> runs (snd (resolve 2 (Ctor 1) (singleton (Ctor 1) reentrant new_container))) = [Ctor 1, Ctor 1]
   \<and> instances (snd (resolve 2 (Ctor 1) (singleton (Ctor 1) reentrant new_container))) (Ctor 1) = Some 1"
  by (simp add: singleton_def new_container_def reentrant_def numeral_2_eq_2 run_factory.simps)

text \<open>A class that needs itself exhausts the stack, however much room there is.\<close>

lemma self_dependent_overflows:
  "factories c k = Some (classToFactory [k], False) \<Longrightarrow> fst (resolve d k c) = Inl RangeError"
proof (induction d arbitrary: c)
  case 0
  then show ?case by simp
next
  case (Suc d)
  from Suc.IH[of "c\<lparr>runs := runs c @ [k]\<rparr>"] Suc.prems
  have "fst (resolve d k (c\<lparr>runs := runs c @ [k]\<rparr>)) = Inl RangeError" by simp
  with Suc.prems show ?case
    by (cases "resolve d k (c\<lparr>runs := runs c @ [k]\<rparr>)")
       (simp add: run_factory.simps classToFactory_def)
qed

end
